theory Spec2Isabelle
  imports Main "HOL-Library.Word"
begin

unbundle bit_operations_syntax

section \<open>Bytes and buffers\<close>

text \<open>
  The parsers of \<^verbatim>\<open>simplest_mediadata_raw.cpp\<close> work on \<^verbatim>\<open>unsigned char\<close> buffers.
  A byte is an 8-bit word; a C expression on bytes is computed in \<^verbatim>\<open>int\<close> after integer
  promotion, so the model reads a byte with \<open>uint\<close> and computes on \<open>int\<close>. All the values
  that occur are far below \<open>2 ^ 31\<close>, so no wrap-around is involved.

  A pointer argument is modelled by the list of bytes reachable from it. An access beyond
  that list is undefined behaviour in C; the model returns \<open>None\<close> there.
\<close>

type_synonym byte = "8 word"

definition rd :: "byte list \<Rightarrow> nat \<Rightarrow> byte option" where
  "rd buf i = (if i < length buf then Some (buf ! i) else None)"

text \<open>\<^verbatim>\<open>memcpy(dst, src, n)\<close>: the first \<open>n\<close> bytes of \<open>dst\<close> are replaced, the rest stays.\<close>

definition memcpy :: "byte list \<Rightarrow> byte list \<Rightarrow> int \<Rightarrow> byte list option" where
  "memcpy dst src n =
     (if 0 \<le> n \<and> nat n \<le> length dst \<and> nat n \<le> length src
      then Some (take (nat n) src @ drop (nat n) dst) else None)"

section \<open>AAC: the ADTS frame reader\<close>

subsection \<open>getADTSframe\<close>

text \<open>
  The three statements that assemble the 13-bit frame length from header bytes 3, 4 and 5,
  starting from \<^verbatim>\<open>size = 0\<close> (the variable \<^verbatim>\<open>size\<close> is \<open>sz\<close> here).
\<close>

definition adts_size :: "byte \<Rightarrow> byte \<Rightarrow> byte \<Rightarrow> int" where
  "adts_size b3 b4 b5 =
     (let sz = 0;
          sz = sz OR push_bit 11 (uint b3 AND 0x03);
          sz = sz OR push_bit 3 (uint b4);
          sz = sz OR drop_bit 5 (uint b5 AND 0xe0)
      in sz)"

text \<open>The sync test of the scan loop: \<^verbatim>\<open>buffer[0] == 0xff && (buffer[1] & 0xf0) == 0xf0\<close>.\<close>

definition adts_sync :: "byte \<Rightarrow> byte \<Rightarrow> bool" where
  "adts_sync b0 b1 = (uint b0 = 0xff \<and> uint b1 AND 0xf0 = 0xf0)"

text \<open>
  The \<^verbatim>\<open>while(1)\<close> loop. It either returns \<open>-1\<close> from inside (\<open>Inl\<close>), or breaks with
  the advanced pointer, the reduced \<^verbatim>\<open>buf_size\<close> and the decoded \<^verbatim>\<open>size\<close> (\<open>Inr\<close>).
\<close>

function adts_scan :: "byte list \<Rightarrow> int \<Rightarrow> (int + byte list \<times> int \<times> int) option" where
  "adts_scan buffer buf_size =
     (if buf_size < 7 then Some (Inl (- 1))
      else
        (case rd buffer 0 of None \<Rightarrow> None
         | Some b0 \<Rightarrow>
           if uint b0 = 0xff then
             (case rd buffer 1 of None \<Rightarrow> None
              | Some b1 \<Rightarrow>
                if uint b1 AND 0xf0 = 0xf0 then
                  (case (rd buffer 3, rd buffer 4, rd buffer 5) of
                     (Some b3, Some b4, Some b5) \<Rightarrow>
                       Some (Inr (buffer, buf_size, adts_size b3 b4 b5))
                   | _ \<Rightarrow> None)
                else adts_scan (tl buffer) (buf_size - 1))
           else adts_scan (tl buffer) (buf_size - 1)))"
  by pat_completeness auto
termination
  by (relation "measure (\<lambda>(buffer, buf_size). nat buf_size)") auto

declare adts_scan.simps [simp del]

text \<open>
  \<^verbatim>\<open>getADTSframe(buffer, buf_size, data, data_size)\<close>. The three pointers are options
  (\<open>None\<close> is the null pointer); \<open>data_size\<close> is the value the \<^verbatim>\<open>int*\<close> points to.
  The result is the return code with the contents of \<^verbatim>\<open>data\<close> and \<^verbatim>\<open>*data_size\<close> after
  the call, or \<open>None\<close> when the call reads or writes out of bounds.
\<close>

definition getADTSframe ::
  "byte list option \<Rightarrow> int \<Rightarrow> byte list option \<Rightarrow> int option
   \<Rightarrow> (int \<times> byte list option \<times> int option) option" where
  "getADTSframe buffer buf_size data data_size =
     (case (buffer, data, data_size) of
        (Some buf, Some dat, Some dsz) \<Rightarrow>
          (case adts_scan buf buf_size of
             None \<Rightarrow> None
           | Some (Inl r) \<Rightarrow> Some (r, data, data_size)
           | Some (Inr (buf', buf_size', sz)) \<Rightarrow>
               if buf_size' < sz then Some (1, data, data_size)
               else
                 (case memcpy dat buf' sz of
                    None \<Rightarrow> None
                  | Some dat' \<Rightarrow> Some (0, Some dat', Some sz)))
      | _ \<Rightarrow> Some (- 1, data, data_size))"

text \<open>
  The frame length as the format description words it:
  \<^verbatim>\<open>((byte3 & 0x03) << 11) | (byte4 << 3) | ((byte5 & 0xE0) >> 5)\<close>.
\<close>

definition frame_length_spec :: "byte \<Rightarrow> byte \<Rightarrow> byte \<Rightarrow> int" where
  "frame_length_spec byte3 byte4 byte5 =
     (push_bit 11 (uint byte3 AND 0x03)) OR (push_bit 3 (uint byte4))
       OR (drop_bit 5 (uint byte5 AND 0xE0))"

section \<open>UDP: RTP header and MPEG-TS packets\<close>

text \<open>
  \<^verbatim>\<open>RTP_FIXED_HEADER\<close> with \<^verbatim>\<open>CPU_LITTLE_ENDIAN\<close> defined: the bit-fields are allocated from
  the least significant bit of their byte, and \<^verbatim>\<open>seq_no\<close>, \<^verbatim>\<open>timestamp\<close> and \<^verbatim>\<open>ssrc\<close>
  hold the bytes of the datagram read in host (little-endian) order.
\<close>

record RTP_FIXED_HEADER =
  csrc_len :: int
  extension :: int
  padding :: int
  version :: int
  payload :: int
  marker :: int
  seq_no :: int
  timestamp :: int
  ssrc :: int

text \<open>A 16- or 32-bit field as the little-endian host reads it from memory.\<close>

definition host16 :: "byte \<Rightarrow> byte \<Rightarrow> int" where
  "host16 a b = uint a + 256 * uint b"

definition host32 :: "byte \<Rightarrow> byte \<Rightarrow> byte \<Rightarrow> byte \<Rightarrow> int" where
  "host32 a b c d = uint a + 256 * uint b + 65536 * uint c + 16777216 * uint d"

text \<open>\<^verbatim>\<open>ntohs\<close> and \<^verbatim>\<open>ntohl\<close> on a little-endian host swap the bytes.\<close>

definition ntohs :: "int \<Rightarrow> int" where
  "ntohs x = (x mod 256) * 256 + (x div 256) mod 256"

definition ntohl :: "int \<Rightarrow> int" where
  "ntohl x = (x mod 256) * 16777216 + ((x div 256) mod 256) * 65536
             + ((x div 65536) mod 256) * 256 + (x div 16777216) mod 256"

text \<open>
  \<^verbatim>\<open>memcpy((void *)&rtp_header, recvData, rtp_header_size)\<close> with
  \<^verbatim>\<open>rtp_header_size = sizeof(RTP_FIXED_HEADER) = 12\<close>: the struct is read from the first twelve
  bytes of the receive buffer, whatever the size of the datagram was.
\<close>

definition rtp_header_of :: "byte list \<Rightarrow> RTP_FIXED_HEADER" where
  "rtp_header_of m =
     \<lparr> csrc_len = uint (m ! 0) AND 0x0f,
       extension = drop_bit 4 (uint (m ! 0)) AND 1,
       padding = drop_bit 5 (uint (m ! 0)) AND 1,
       version = drop_bit 6 (uint (m ! 0)),
       payload = uint (m ! 1) AND 0x7f,
       marker = drop_bit 7 (uint (m ! 1)),
       seq_no = host16 (m ! 2) (m ! 3),
       timestamp = host32 (m ! 4) (m ! 5) (m ! 6) (m ! 7),
       ssrc = host32 (m ! 8) (m ! 9) (m ! 10) (m ! 11) \<rparr>"

text \<open>
  The loop \<^verbatim>\<open>for(int i=0;i<rtp_data_size;i=i+188)\<close>, which leaves at the first
  \<^verbatim>\<open>rtp_data[i] != 0x47\<close> and prints one \<^verbatim>\<open>[MPEGTS Pkt]\<close> line otherwise. The result
  lists the offsets \<open>i\<close> for which a line is printed.
\<close>

function mpegts_loop :: "byte list \<Rightarrow> int \<Rightarrow> int \<Rightarrow> int list option" where
  "mpegts_loop rtp_data rtp_data_size i =
     (if i < rtp_data_size then
        (if i < 0 then None
         else case rd rtp_data (nat i) of
           None \<Rightarrow> None
         | Some b \<Rightarrow>
             if uint b \<noteq> 0x47 then Some []
             else map_option (\<lambda>r. i # r) (mpegts_loop rtp_data rtp_data_size (i + 188)))
      else Some [])"
  by pat_completeness auto
termination
  by (relation "measure (\<lambda>(rtp_data, rtp_data_size, i). nat (rtp_data_size - i))") auto

declare mpegts_loop.simps [simp del]

text \<open>
  The description that \<^verbatim>\<open>switch(payload)\<close> formats into \<^verbatim>\<open>char payload_str[50] = {0}\<close>. The
  three format strings of the source are \<^verbatim>\<open>"encoding name: %s,media type: %s,clock rate:%s,channels:%s"\<close>,
  \<^verbatim>\<open>"encoding name: %s,media type: %s,clock rate:%s"\<close> and \<^verbatim>\<open>"media type:%s"\<close>.
\<close>

definition fmt_enc4 :: "string \<Rightarrow> string \<Rightarrow> string \<Rightarrow> string \<Rightarrow> string" where
  "fmt_enc4 name media rate channels =
     ''encoding name: '' @ name @ '',media type: '' @ media @ '',clock rate:'' @ rate
       @ '',channels:'' @ channels"

definition fmt_enc3 :: "string \<Rightarrow> string \<Rightarrow> string \<Rightarrow> string" where
  "fmt_enc3 name media rate =
     ''encoding name: '' @ name @ '',media type: '' @ media @ '',clock rate:'' @ rate"

definition fmt_media :: "string \<Rightarrow> string" where
  "fmt_media media = ''media type:'' @ media"

text \<open>
  \<^verbatim>\<open>sprintf\<close> into an array of \<open>n\<close> chars writes the text and a terminating zero byte. When
  they do not fit, the write goes beyond the array: \<open>None\<close>.
\<close>

definition sprintf :: "nat \<Rightarrow> string \<Rightarrow> string option" where
  "sprintf n s = (if length s + 1 \<le> n then Some s else None)"

text \<open>
  The \<^verbatim>\<open>switch\<close>, case by case. A payload type without a case leaves the zeroed array as it
  is, the empty string.
\<close>

definition payload_str_of :: "int \<Rightarrow> string option" where
  "payload_str_of pl =
     (if pl = 0 then sprintf 50 (fmt_enc4 ''PCMU'' ''Audio'' ''8khz'' ''1'')
      else if pl = 1 \<or> pl = 2 then sprintf 50 (fmt_media ''Audio'')
      else if pl = 3 then sprintf 50 (fmt_enc4 ''GSM'' ''Audio'' ''8khz'' ''1'')
      else if pl = 4 then sprintf 50 (fmt_enc4 ''G723'' ''Audio'' ''8khz'' ''1'')
      else if pl = 5 then sprintf 50 (fmt_enc4 ''DVI4'' ''Audio'' ''8khz'' ''1'')
      else if pl = 6 then sprintf 50 (fmt_enc4 ''DVI4'' ''Audio'' ''16khz'' ''1'')
      else if pl = 7 then sprintf 50 (fmt_enc4 ''LPC'' ''Audio'' ''8khz'' ''1'')
      else if pl = 8 then sprintf 50 (fmt_enc4 ''PCMA'' ''Audio'' ''8khz'' ''1'')
      else if pl = 9 then sprintf 50 (fmt_enc4 ''G722'' ''Audio'' ''8khz'' ''1'')
      else if pl = 10 then sprintf 50 (fmt_enc4 ''L16'' ''Audio'' ''44.1khz'' ''2'')
      else if pl = 11 then sprintf 50 (fmt_enc4 ''L16'' ''Audio'' ''44.1khz'' ''1'')
      else if pl = 12 then sprintf 50 (fmt_enc4 ''QCELP'' ''Audio'' ''8khz'' ''1'')
      else if pl = 13 then sprintf 50 (fmt_enc4 ''CN'' ''Audio'' ''8khz'' ''1'')
      else if pl = 14 then sprintf 50 (fmt_enc4 ''MPA'' ''Audio'' ''90khz'' ''1'')
      else if pl = 15 then sprintf 50 (fmt_enc4 ''G728'' ''Audio'' ''8khz'' ''1'')
      else if pl = 16 then sprintf 50 (fmt_enc4 ''DVI4'' ''Audio'' ''11.025khz'' ''1'')
      else if pl = 17 then sprintf 50 (fmt_enc4 ''DVI4'' ''Audio'' ''22.05khz'' ''1'')
      else if pl = 18 then sprintf 50 (fmt_enc4 ''G729'' ''Audio'' ''8khz'' ''1'')
      else if pl = 25 then sprintf 50 (fmt_enc3 ''CelB'' ''Vedio'' ''90khz'')
      else if pl = 26 then sprintf 50 (fmt_enc3 ''JPEG'' ''Vedio'' ''90khz'')
      else if pl = 31 then sprintf 50 (fmt_enc3 ''H261'' ''Vedio'' ''90khz'')
      else if pl = 32 then sprintf 50 (fmt_enc3 ''MPV'' ''Vedio'' ''90khz'')
      else if pl = 33 then sprintf 50 (fmt_enc3 ''MP2T'' ''AV'' ''90khz'')
      else if pl = 34 then sprintf 50 (fmt_enc3 ''H263'' ''Vedio'' ''90khz'')
      else if pl = 96 then sprintf 50 (fmt_enc4 ''PCMU'' ''Audio'' ''8khz'' ''2'')
      else Some [])"

text \<open>
  \<^verbatim>\<open>fwrite(ptr, size, 1, fp1)\<close> with an \<^verbatim>\<open>int\<close> size: the bytes appended to the dump file, which
  the model takes to be open. A negative size reaches \<^verbatim>\<open>fwrite\<close> as a huge \<^verbatim>\<open>size_t\<close>, a read
  far beyond the memory at \<open>ptr\<close>: \<open>None\<close>.
\<close>

definition fwrite :: "byte list \<Rightarrow> int \<Rightarrow> byte list option" where
  "fwrite ptr sz = (if 0 \<le> sz \<and> nat sz \<le> length ptr then Some (take (nat sz) ptr) else None)"

text \<open>
  What one datagram produces: the \<^verbatim>\<open>[RTP Pkt]\<close> line (count, description, timestamp,
  sequence number, packet size), the bytes that \<^verbatim>\<open>fwrite(rtp_data,rtp_data_size,1,fp1)\<close>
  appends to the dump file, and the offsets of the \<^verbatim>\<open>[MPEGTS Pkt]\<close> lines.
\<close>

record rtp_out =
  rtp_header :: RTP_FIXED_HEADER
  rtp_row :: "int \<times> string \<times> int \<times> int \<times> int"
  rtp_data_size :: int
  dumped :: "byte list"
  mpegts_pkts :: "int list"

record udp_state =
  recvData :: "byte list"
  cnt :: int

text \<open>
  \<^verbatim>\<open>recvfrom(serSocket, recvData, sizeof(recvData), ...)\<close> with \<^verbatim>\<open>char recvData[10000]\<close>:
  a datagram overwrites the front of the buffer and is cut at 10000 bytes; the rest of the
  buffer keeps what earlier datagrams left. \<open>None\<close> is a failed call (result \<open>-1\<close>).
\<close>

definition recvfrom :: "byte list \<Rightarrow> byte list option \<Rightarrow> int \<times> byte list" where
  "recvfrom buf dg =
     (case dg of
        None \<Rightarrow> (- 1, buf)
      | Some d \<Rightarrow> (int (min (length d) 10000), take 10000 d @ drop (min (length d) 10000) buf))"

text \<open>
  One turn of the \<^verbatim>\<open>while(1)\<close> loop of \<^verbatim>\<open>simplest_udp_parser\<close>, with \<^verbatim>\<open>parse_rtp = 1\<close> and
  \<^verbatim>\<open>parse_mpegts = 1\<close> as the source sets them, in the order of the source: the header is
  copied from the first twelve bytes of \<^verbatim>\<open>recvData\<close>, the description is formatted, the
  \<^verbatim>\<open>[RTP Pkt]\<close> line is printed, the payload is written to the dump file, and the payload
  of type 33 is split. Nothing is done unless \<^verbatim>\<open>pktsize > 0\<close>; there is no other test on
  the size. The result is \<open>None\<close> when the turn writes or reads outside an object.
\<close>

definition udp_packet :: "udp_state \<Rightarrow> byte list option \<Rightarrow> (udp_state \<times> rtp_out option) option" where
  "udp_packet st dg =
     (let (pktsize, buf) = recvfrom (recvData st) dg in
      if pktsize > 0 then
        (let rtp_header_size = 12;
             hdr = rtp_header_of (take (nat rtp_header_size) buf);
             pl = payload hdr
         in case payload_str_of pl of
              None \<Rightarrow> None
            | Some payload_str \<Rightarrow>
                (let ts = ntohl (timestamp hdr);
                     sq = ntohs (seq_no hdr);
                     rtp_data = drop (nat rtp_header_size) buf;
                     dsize = pktsize - rtp_header_size
                 in case fwrite rtp_data dsize of
                      None \<Rightarrow> None
                    | Some bytes \<Rightarrow>
                        (case (if pl = 33 then mpegts_loop rtp_data dsize 0 else Some []) of
                           None \<Rightarrow> None
                         | Some pkts \<Rightarrow>
                             Some (\<lparr> recvData = buf, cnt = cnt st + 1 \<rparr>,
                                   Some \<lparr> rtp_header = hdr,
                                          rtp_row = (cnt st, payload_str, ts, sq, pktsize),
                                          rtp_data_size = dsize,
                                          dumped = bytes,
                                          mpegts_pkts = pkts \<rparr>))))
      else Some (st\<lparr> recvData := buf \<rparr>, None))"

section \<open>Files\<close>

text \<open>
  A \<^verbatim>\<open>FILE*\<close> opened for reading: the bytes of the file, the position and the end-of-file
  indicator. \<^verbatim>\<open>fgetc\<close> and \<^verbatim>\<open>fread\<close> set the indicator when they are asked for a byte
  that is not there; a successful \<^verbatim>\<open>fseek\<close> clears it. A position beyond the end of the
  file is allowed.
\<close>

record FILE =
  contents :: "byte list"
  fpos :: nat
  eof :: bool

definition fopen :: "byte list \<Rightarrow> FILE" where
  "fopen bytes = \<lparr> contents = bytes, fpos = 0, eof = False \<rparr>"

definition feof :: "FILE \<Rightarrow> bool" where
  "feof fp = eof fp"

definition ftell :: "FILE \<Rightarrow> int" where
  "ftell fp = int (fpos fp)"

text \<open>\<^verbatim>\<open>fgetc\<close>: the byte as a non-negative \<^verbatim>\<open>int\<close>, or \<^verbatim>\<open>EOF\<close>, which is \<open>-1\<close>.\<close>

definition fgetc :: "FILE \<Rightarrow> int \<times> FILE" where
  "fgetc fp =
     (if fpos fp < length (contents fp)
      then (uint (contents fp ! fpos fp), fp\<lparr> fpos := fpos fp + 1 \<rparr>)
      else (- 1, fp\<lparr> eof := True \<rparr>))"

text \<open>\<^verbatim>\<open>fread(ptr, 1, n, fp)\<close>: the bytes read; their number is the result of the call.\<close>

definition fread :: "FILE \<Rightarrow> nat \<Rightarrow> byte list \<times> FILE" where
  "fread fp n =
     (let bs = take n (drop (fpos fp) (contents fp))
      in (bs, fp\<lparr> fpos := fpos fp + length bs, eof := eof fp \<or> length bs < n \<rparr>))"

text \<open>\<^verbatim>\<open>fseek(fp, off, SEEK_CUR)\<close> and \<^verbatim>\<open>fseek(fp, off, SEEK_SET)\<close>, with the result of the call.\<close>

definition fseek_cur :: "FILE \<Rightarrow> int \<Rightarrow> int \<times> FILE" where
  "fseek_cur fp off =
     (if int (fpos fp) + off < 0 then (- 1, fp)
      else (0, fp\<lparr> fpos := nat (int (fpos fp) + off), eof := False \<rparr>))"

definition fseek_set :: "FILE \<Rightarrow> int \<Rightarrow> int \<times> FILE" where
  "fseek_set fp off =
     (if off < 0 then (- 1, fp)
      else (0, fp\<lparr> fpos := nat off, eof := False \<rparr>))"

section \<open>H.264: the Annex-B NAL unit reader\<close>

record NALU_t =
  startcodeprefix_len :: int
  len :: int
  max_size :: int
  forbidden_bit :: int
  nal_reference_idc :: int
  nal_unit_type :: int
  buf :: "byte list"

text \<open>The argument is the memory from the pointer on; the callers pass at least 3 and 4 bytes.\<close>

definition FindStartCode2 :: "byte list \<Rightarrow> int" where
  "FindStartCode2 Buf = (if Buf ! 0 \<noteq> 0 \<or> Buf ! 1 \<noteq> 0 \<or> Buf ! 2 \<noteq> 1 then 0 else 1)"

definition FindStartCode3 :: "byte list \<Rightarrow> int" where
  "FindStartCode3 Buf =
     (if Buf ! 0 \<noteq> 0 \<or> Buf ! 1 \<noteq> 0 \<or> Buf ! 2 \<noteq> 0 \<or> Buf ! 3 \<noteq> 1 then 0 else 1)"

text \<open>
  The three assignments that decode the header byte \<^verbatim>\<open>nalu->buf[0]\<close>. The buffer is a
  \<^verbatim>\<open>char*\<close>, so the byte is promoted as a signed value.
\<close>

definition nalu_header :: "NALU_t \<Rightarrow> NALU_t" where
  "nalu_header nalu =
     nalu\<lparr> forbidden_bit := sint (buf nalu ! 0) AND 0x80,
           nal_reference_idc := sint (buf nalu ! 0) AND 0x60,
           nal_unit_type := sint (buf nalu ! 0) AND 0x1f \<rparr>"

text \<open>
  The loop \<^verbatim>\<open>while(!StartCodeFound)\<close>. \<open>Buf\<close> holds the bytes written so far, so \<^verbatim>\<open>pos\<close>
  is its length (at least 3 on entry); the rest of the zeroed buffer of \<^verbatim>\<open>max_size\<close> bytes is
  never read. A write at \<^verbatim>\<open>pos >= max_size\<close> is outside the buffer: \<open>None\<close>.
  The loop is left either at end of file or with a start code found.
\<close>

datatype scan_result = AtEof FILE "byte list" | Found FILE "byte list" int int

function nalu_scan :: "FILE \<Rightarrow> byte list \<Rightarrow> int \<Rightarrow> int \<Rightarrow> scan_result option" where
  "nalu_scan fp Buf maxsize info2 =
     (if feof fp then Some (AtEof fp Buf)
      else if maxsize \<le> int (length Buf) then None
      else
        (let (c, fp') = fgetc fp;
             Buf' = Buf @ [word_of_int c];
             pos = length Buf';
             info3 = FindStartCode3 (drop (pos - 4) Buf');
             info2' = (if info3 \<noteq> 1 then FindStartCode2 (drop (pos - 3) Buf') else info2)
         in if info2' = 1 \<or> info3 = 1 then Some (Found fp' Buf' info2' info3)
            else nalu_scan fp' Buf' maxsize info2'))"
  by pat_completeness auto
termination
  by (relation "measure (\<lambda>(fp, Buf, maxsize, info2).
         (length (contents fp) - fpos fp) + (if eof fp then 0 else 1))")
     (auto simp: fgetc_def feof_def split: if_splits)

declare nalu_scan.simps [simp del]

text \<open>
  The end of \<^verbatim>\<open>GetAnnexbNALU\<close>, from the loop on. \<^verbatim>\<open>nalu->len\<close> is an \<^verbatim>\<open>unsigned int\<close>.
  If the \<^verbatim>\<open>fseek\<close> fails the source frees \<open>Buf\<close> and goes on using it: \<open>None\<close>.
\<close>

definition nalu_complete :: "FILE \<Rightarrow> NALU_t \<Rightarrow> byte list \<Rightarrow> (int \<times> FILE \<times> NALU_t) option" where
  "nalu_complete fp nalu Buf =
     (case nalu_scan fp Buf (max_size nalu) 0 of
        None \<Rightarrow> None
      | Some (AtEof fp' Buf') \<Rightarrow>
          (let pos = int (length Buf');
               l = ((pos - 1) - startcodeprefix_len nalu) mod 2 ^ 32
           in case memcpy (buf nalu) (drop (nat (startcodeprefix_len nalu)) Buf') l of
                None \<Rightarrow> None
              | Some b \<Rightarrow> Some (pos - 1, fp', nalu_header (nalu\<lparr> len := l, buf := b \<rparr>)))
      | Some (Found fp' Buf' info2 info3) \<Rightarrow>
          (let pos = int (length Buf');
               rewind = (if info3 = 1 then - 4 else - 3);
               (r, fp'') = fseek_cur fp' rewind
           in if r \<noteq> 0 then None
              else
                (let l = ((pos + rewind) - startcodeprefix_len nalu) mod 2 ^ 32
                 in case memcpy (buf nalu) (drop (nat (startcodeprefix_len nalu)) Buf') l of
                      None \<Rightarrow> None
                    | Some b \<Rightarrow>
                        Some (pos + rewind, fp'', nalu_header (nalu\<lparr> len := l, buf := b \<rparr>)))))"

text \<open>
  \<^verbatim>\<open>GetAnnexbNALU\<close>: the result of the call, the file and the unit afterwards. The early
  returns \<open>0\<close> and \<open>-1\<close> leave the unit as it was, but for \<^verbatim>\<open>startcodeprefix_len = 3\<close>.
\<close>

definition GetAnnexbNALU :: "FILE \<Rightarrow> NALU_t \<Rightarrow> (int \<times> FILE \<times> NALU_t) option" where
  "GetAnnexbNALU fp nalu =
     (if max_size nalu < 4 then None
      else
        (let nalu = nalu\<lparr> startcodeprefix_len := 3 \<rparr>;
             (b3, fp) = fread fp 3
         in if length b3 \<noteq> 3 then Some (0, fp, nalu)
            else if FindStartCode2 b3 \<noteq> 1 then
              (let (b1, fp) = fread fp 1
               in if length b1 \<noteq> 1 then Some (0, fp, nalu)
                  else if FindStartCode3 (b3 @ b1) \<noteq> 1 then Some (- 1, fp, nalu)
                  else nalu_complete fp (nalu\<lparr> startcodeprefix_len := 4 \<rparr>) (b3 @ b1))
            else nalu_complete fp (nalu\<lparr> startcodeprefix_len := 3 \<rparr>) b3))"

text \<open>
  \<^verbatim>\<open>simplest_h264_parser\<close>: one table row per turn of \<^verbatim>\<open>while(!feof(h264bitstream))\<close>,
  whatever \<^verbatim>\<open>GetAnnexbNALU\<close> returned. A row carries the printed columns and the unit
  \<^verbatim>\<open>*n\<close> as it stands when the row is printed.
\<close>

record nalu_row =
  nal_num :: int
  data_offset :: int
  idc_str :: string
  type_str :: string
  row_len :: int
  unit :: NALU_t

definition nalu_type_str :: "int \<Rightarrow> string" where
  "nalu_type_str t =
     (if t = 1 then ''SLICE'' else if t = 2 then ''DPA'' else if t = 3 then ''DPB''
      else if t = 4 then ''DPC'' else if t = 5 then ''IDR'' else if t = 6 then ''SEI''
      else if t = 7 then ''SPS'' else if t = 8 then ''PPS'' else if t = 9 then ''AUD''
      else if t = 10 then ''EOSEQ'' else if t = 11 then ''EOSTREAM''
      else if t = 12 then ''FILL'' else [])"

text \<open>The priority name is chosen by \<^verbatim>\<open>switch(n->nal_reference_idc >> 5)\<close>.\<close>

definition nalu_idc_str :: "int \<Rightarrow> string" where
  "nalu_idc_str idc =
     (let p = drop_bit 5 idc in
      if p = 0 then ''DISPOS'' else if p = 1 then ''LOW'' else if p = 2 then ''HIGH''
      else if p = 3 then ''HIGHEST'' else [])"

function h264_loop :: "FILE \<Rightarrow> NALU_t \<Rightarrow> int \<Rightarrow> int \<Rightarrow> nalu_row list option" where
  "h264_loop fp n offs num =
     (if feof fp then Some []
      else
        (case GetAnnexbNALU fp n of
           None \<Rightarrow> None
         | Some (data_lenth, fp', n') \<Rightarrow>
             (case h264_loop fp' n' (offs + data_lenth) (num + 1) of
                None \<Rightarrow> None
              | Some rows \<Rightarrow>
                  Some (\<lparr> nal_num = num, data_offset = offs,
                          idc_str = nalu_idc_str (nal_reference_idc n'),
                          type_str = nalu_type_str (nal_unit_type n'),
                          row_len = len n', unit = n' \<rparr> # rows))))"
  by pat_completeness auto

text \<open>The unit is allocated with \<^verbatim>\<open>calloc\<close>, and \<^verbatim>\<open>buffersize = 100000\<close>.\<close>

definition calloc_NALU :: "int \<Rightarrow> NALU_t" where
  "calloc_NALU buffersize =
     \<lparr> startcodeprefix_len = 0, len = 0, max_size = buffersize, forbidden_bit = 0,
       nal_reference_idc = 0, nal_unit_type = 0, buf = replicate (nat buffersize) 0 \<rparr>"

definition simplest_h264_parser :: "byte list \<Rightarrow> nalu_row list option" where
  "simplest_h264_parser bytes = h264_loop (fopen bytes) (calloc_NALU 100000) 0 0"


definition nalu_payload :: "NALU_t \<Rightarrow> byte list" where
  "nalu_payload u = take (nat (len u)) (buf u)"

definition annexb_valid :: "byte list \<Rightarrow> bool" where
  "annexb_valid bytes = (take 3 bytes = [0, 0, 1] \<or> take 4 bytes = [0, 0, 0, 1])"

text \<open>The header fields of a unit agree with the first byte of its buffer.\<close>

definition hdr_ok :: "NALU_t \<Rightarrow> bool" where
  "hdr_ok n = (forbidden_bit n = sint (buf n ! 0) AND 0x80 \<and>
               nal_reference_idc n = sint (buf n ! 0) AND 0x60 \<and>
               nal_unit_type n = sint (buf n ! 0) AND 0x1f)"




section \<open>FLV: the tag demuxer\<close>

text \<open>
  Both header structs are read from the file as raw memory. With the alignment of the
  \<^verbatim>\<open>uint\<close> member, \<^verbatim>\<open>sizeof(FLV_HEADER)\<close> and \<^verbatim>\<open>sizeof(TAG_HEADER)\<close> are 12: in
  \<^verbatim>\<open>FLV_HEADER\<close> the member \<^verbatim>\<open>DataOffset\<close> lies at bytes 8 to 11, and in \<^verbatim>\<open>TAG_HEADER\<close>
  the member \<^verbatim>\<open>Reserved\<close> lies at bytes 8 to 11, both read in host order.
\<close>

record FLV_HEADER =
  Signature :: "byte list"
  Version :: byte
  Flags :: byte
  DataOffset :: int

definition flv_header_of :: "byte list \<Rightarrow> FLV_HEADER" where
  "flv_header_of m =
     \<lparr> Signature = take 3 m, Version = m ! 3, Flags = m ! 4,
       DataOffset = host32 (m ! 8) (m ! 9) (m ! 10) (m ! 11) \<rparr>"

record TAG_HEADER =
  TagType :: byte
  DataSize :: "byte list"
  Timestamp :: "byte list"
  Reserved :: int

definition tag_header_of :: "byte list \<Rightarrow> TAG_HEADER" where
  "tag_header_of m =
     \<lparr> TagType = m ! 0, DataSize = take 3 (drop 1 m), Timestamp = take 3 (drop 4 m),
       Reserved = host32 (m ! 8) (m ! 9) (m ! 10) (m ! 11) \<rparr>"

text \<open>
  \<^verbatim>\<open>reverse_bytes(p, c)\<close>: the loop \<^verbatim>\<open>r |= p[i] << ((c-1)*8 - 8*i)\<close> on a 32-bit \<^verbatim>\<open>int\<close>.
\<close>

function reverse_bytes_loop :: "byte list \<Rightarrow> nat \<Rightarrow> nat \<Rightarrow> 32 word \<Rightarrow> 32 word" where
  "reverse_bytes_loop p c i r =
     (if i < c
      then reverse_bytes_loop p c (Suc i)
             (r OR push_bit ((c - 1) * 8 - 8 * i) (ucast (p ! i)))
      else r)"
  by pat_completeness auto
termination
  by (relation "measure (\<lambda>(p, c, i, r). c - i)") auto

declare reverse_bytes_loop.simps [simp del]

definition reverse_bytes :: "byte list \<Rightarrow> nat \<Rightarrow> 32 word" where
  "reverse_bytes p c = reverse_bytes_loop p c 0 0"

text \<open>\<^verbatim>\<open>fputc(fgetc(ifh), out)\<close> repeated \<open>n\<close> times: the bytes written. \<^verbatim>\<open>EOF\<close> is written as \<open>0xFF\<close>.\<close>

primrec fgetcs :: "nat \<Rightarrow> FILE \<Rightarrow> byte list \<times> FILE" where
  "fgetcs 0 fp = ([], fp)"
| "fgetcs (Suc n) fp =
     (let (c, fp') = fgetc fp; (bs, fp'') = fgetcs n fp' in (word_of_int c # bs, fp''))"

text \<open>What the script tag prints while it decodes the two AMF packets.\<close>

datatype amf_event =
    ScriptData int "byte list"
  | ArrayCount int
  | KeyNumber "byte list" "64 word"
  | KeyBoolean "byte list" bool
  | KeyOther "byte list" byte
  | KeySkipped "byte list" byte

text \<open>The key is compared with \<^verbatim>\<open>strcmp\<close>: as a C string it ends at its first zero byte.\<close>

definition c_string :: "byte list \<Rightarrow> string" where
  "c_string bs = map (\<lambda>b. char_of (unat b)) (takeWhile (\<lambda>b. b \<noteq> 0) bs)"

definition known_keys :: "string list" where
  "known_keys = [''duration'', ''width'', ''height'', ''videodatarate'', ''framerate'',
     ''videocodecid'', ''audiodatarate'', ''audiosamplerate'', ''audiosamplesize'',
     ''stereo'', ''audiocodecid'', ''filesize'']"

definition big_endian64 :: "byte list \<Rightarrow> 64 word" where
  "big_endian64 v = foldl (\<lambda>acc b. push_bit 8 acc OR ucast b) 0 v"

text \<open>
  One turn of \<^verbatim>\<open>for(int i=0;i < num;i++)\<close>: a key and its value. The two length bytes are
  read into an uninitialised \<^verbatim>\<open>tmp[2]\<close>; when the file ends inside them their value is
  indeterminate and the model gives no result. \<^verbatim>\<open>KeyString\<close> and \<^verbatim>\<open>value\<close> are zeroed before
  they are read.
\<close>

definition ecma_pair :: "FILE \<Rightarrow> (amf_event \<times> FILE) option" where
  "ecma_pair fp =
     (let (tmp, fp) = fread fp 2 in
      if length tmp \<noteq> 2 then None
      else
        (let KeyLen = nat (uint (tmp ! 0) * 256 + uint (tmp ! 1));
             (KeyString, fp) = fread fp KeyLen
         in if c_string KeyString \<in> set known_keys then
              (let (c, fp) = fgetc fp; value_type = (word_of_int c :: byte) in
               if value_type = 0 then
                 (let (v, fp) = fread fp 8
                  in Some (KeyNumber KeyString (big_endian64 (v @ replicate (8 - length v) 0)), fp))
               else if value_type = 1 then
                 (let (c, fp) = fgetc fp in Some (KeyBoolean KeyString (c \<noteq> 0), fp))
               else Some (KeyOther KeyString value_type, fp))
            else
              (let (c, fp) = fgetc fp; value_type = (word_of_int c :: byte) in
               if value_type = 0 then Some (KeySkipped KeyString value_type, snd (fseek_cur fp 8))
               else if value_type = 1 then Some (KeySkipped KeyString value_type, snd (fseek_cur fp 1))
               else if value_type = 2 then
                 (let (tmp, fp) = fread fp 2 in
                  if length tmp \<noteq> 2 then None
                  else
                    (let ValueLen = uint (tmp ! 0) * 256 + uint (tmp ! 1)
                     in Some (KeySkipped KeyString value_type, snd (fseek_cur fp ValueLen))))
               else Some (KeySkipped KeyString value_type, fp))))"

fun ecma_array :: "nat \<Rightarrow> FILE \<Rightarrow> (amf_event list \<times> FILE) option" where
  "ecma_array 0 fp = Some ([], fp)"
| "ecma_array (Suc n) fp =
     (case ecma_pair fp of
        None \<Rightarrow> None
      | Some (ev, fp') \<Rightarrow>
          (case ecma_array n fp' of
             None \<Rightarrow> None
           | Some (evs, fp'') \<Rightarrow> Some (ev # evs, fp'')))"

text \<open>
  The case \<^verbatim>\<open>TAG_TYPE_SCRIPT\<close>. \<^verbatim>\<open>tagdata_first_byte\<close> is a \<^verbatim>\<open>char\<close>, compared with 2 and 8;
  \<^verbatim>\<open>num\<close> is a zeroed \<^verbatim>\<open>int\<close> filled by \<^verbatim>\<open>fread\<close> and byte-swapped. At the end the file is
  moved to \<^verbatim>\<open>tagheader_datasize+24\<close> unless it is there already.
\<close>

definition script_tag :: "FILE \<Rightarrow> int \<Rightarrow> (amf_event list \<times> FILE) option" where
  "script_tag fp tagheader_datasize =
     (let (c, fp) = fgetc fp in
      case
        (if c = 2 then
           (let (tmp, fp) = fread fp 2 in
            if length tmp \<noteq> 2 then None
            else
              (let ScriptDataLen = uint (tmp ! 0) * 256 + uint (tmp ! 1);
                   (Data, fp) = fread fp (nat ScriptDataLen)
               in Some ([ScriptData ScriptDataLen Data], fp)))
         else Some ([], fp)) of
        None \<Rightarrow> None
      | Some (ev1, fp) \<Rightarrow>
          (let (c, fp) = fgetc fp in
           case
             (if c = 8 then
                (let (nb, fp) = fread fp 4;
                     num = sint (reverse_bytes (nb @ replicate (4 - length nb) 0) 4)
                 in case ecma_array (nat num) fp of
                      None \<Rightarrow> None
                    | Some (evs, fp) \<Rightarrow> Some (ArrayCount num # evs, fp))
              else Some ([], fp)) of
             None \<Rightarrow> None
           | Some (ev2, fp) \<Rightarrow>
               (let fp = (if ftell fp \<noteq> tagheader_datasize + 9 + 4 + 11
                          then snd (fseek_set fp (tagheader_datasize + 24)) else fp)
                in Some (ev1 @ ev2, fp))))"

text \<open>
  What one turn of the \<^verbatim>\<open>do ... while (!feof(ifh))\<close> loop prints: first the line
  \<^verbatim>\<open>[type] datasize timestamp |\<close>, then what the tag's case adds. \<open>Stopped\<close> is the
  \<^verbatim>\<open>break\<close> at \<^verbatim>\<open>if(feof(ifh))\<close>, which comes after the line is printed.
\<close>

datatype tag_body =
    Stopped
  | AudioTag byte "byte list"
  | VideoTag byte "byte list"
  | ScriptTag "amf_event list"
  | OtherTag

record tag_record =
  tag_type :: byte
  tag_datasize :: int
  tag_timestamp :: int
  tag_body :: tag_body

text \<open>
  The body of the loop. \<open>th\<close> is the memory of \<^verbatim>\<open>tagheader\<close>: \<open>None\<close> before it is first
  read. \<^verbatim>\<open>fread((void *)&tagheader,sizeof(TAG_HEADER),1,ifh)\<close> fills it with 12 bytes and
  leaves it alone when no byte is left; a partly read element is indeterminate, and so is a
  header that was never read: no result. The file is then moved back by
  \<^verbatim>\<open>11-sizeof(TAG_HEADER)\<close>, which is \<open>-1\<close>. With \<^verbatim>\<open>output_a = output_v = 1\<close> the bytes of an
  audio or video tag are copied with \<^verbatim>\<open>fgetc\<close>; a tag of another type has none of its data
  consumed.
\<close>

definition flv_tag :: "FILE \<Rightarrow> byte list option \<Rightarrow> (tag_record \<times> FILE \<times> byte list option) option" where
  "flv_tag fp th =
     (let (tmp, fp) = fread fp 4;
          (hb, fp) = fread fp 12;
          th = (if length hb = 12 then Some hb else if hb = [] then th else None)
      in case th of
           None \<Rightarrow> None
         | Some m \<Rightarrow>
             (let tagheader = tag_header_of m;
                  tagheader_datasize = uint (DataSize tagheader ! 0) * 65536
                     + uint (DataSize tagheader ! 1) * 256 + uint (DataSize tagheader ! 2);
                  tagheader_timestamp = uint (Timestamp tagheader ! 0) * 65536
                     + uint (Timestamp tagheader ! 1) * 256 + uint (Timestamp tagheader ! 2);
                  fp = snd (fseek_cur fp (- 1));
                  line = \<lparr> tag_type = TagType tagheader, tag_datasize = tagheader_datasize,
                           tag_timestamp = tagheader_timestamp, tag_body = Stopped \<rparr>
              in if feof fp then Some (line, fp, th)
                 else if TagType tagheader = 8 then
                   (let (c, fp) = fgetc fp;
                        data_size = tagheader_datasize - 1;
                        (bs, fp) = fgetcs (nat data_size) fp
                    in Some (line\<lparr> tag_body := AudioTag (word_of_int c) bs \<rparr>, fp, th))
                 else if TagType tagheader = 9 then
                   (let (c, fp) = fgetc fp;
                        fp = snd (fseek_cur fp (- 1));
                        (bs, fp) = fgetcs (nat tagheader_datasize) fp
                    in Some (line\<lparr> tag_body := VideoTag (word_of_int c) bs \<rparr>, fp, th))
                 else if TagType tagheader = 18 then
                   (case script_tag fp tagheader_datasize of
                      None \<Rightarrow> None
                    | Some (evs, fp) \<Rightarrow> Some (line\<lparr> tag_body := ScriptTag evs \<rparr>, fp, th))
                 else Some (line\<lparr> tag_body := OtherTag \<rparr>, fp, th)))"

text \<open>
  The loop. It need not end (a script tag moves the file to an absolute position), so it
  is a partial function: \<open>None\<close> also stands for a run that never returns.
\<close>

partial_function (option) flv_loop ::
  "FILE \<Rightarrow> byte list option \<Rightarrow> tag_record list \<Rightarrow> tag_record list option" where
  "flv_loop fp th acc =
     (case flv_tag fp th of
        None \<Rightarrow> None
      | Some (r, fp', th') \<Rightarrow>
          if tag_body r = Stopped then Some (acc @ [r])
          else if feof fp' then Some (acc @ [r])
          else flv_loop fp' th' (acc @ [r]))"

declare flv_loop.simps [code]

text \<open>
  \<^verbatim>\<open>simplest_flv_parser\<close>: the header struct is read with one \<^verbatim>\<open>fread\<close> of 12 bytes (a
  shorter file leaves it partly uninitialised: no result), the file is moved to
  \<^verbatim>\<open>flv.DataOffset\<close>, and the tags are processed.
\<close>

definition simplest_flv_parser :: "byte list \<Rightarrow> (FLV_HEADER \<times> tag_record list) option" where
  "simplest_flv_parser bytes =
     (let ifh = fopen bytes;
          (hb, ifh) = fread ifh 12
      in if length hb \<noteq> 12 then None
         else
           (let flv = flv_header_of hb;
                ifh = snd (fseek_set ifh (DataOffset flv))
            in case flv_loop ifh None [] of
                 None \<Rightarrow> None
               | Some tags \<Rightarrow> Some (flv, tags)))"


section \<open>AAC: simplest_aac_parser\<close>

text \<open>
  One line of the ADTS frame table, with the bytes of the frame: the first \<^verbatim>\<open>size\<close> bytes
  of \<^verbatim>\<open>aacframe\<close>. The three fields are computed on \<^verbatim>\<open>unsigned char\<close> as the source writes
  them; in \<^verbatim>\<open>aacframe[2] & 0x01 << 2\<close> the shift binds tighter than the mask.
\<close>

record adts_frame =
  frame_cnt :: int
  frame_profile :: int
  frame_sampling_frequency_index :: int
  frame_channel_config_index :: int
  frame_size :: int
  frame_bytes :: "byte list"

definition adts_line :: "int \<Rightarrow> byte list \<Rightarrow> int \<Rightarrow> adts_frame" where
  "adts_line n aacframe sz =
     \<lparr> frame_cnt = n,
       frame_profile = drop_bit 6 (uint (aacframe ! 2) AND 0xC0),
       frame_sampling_frequency_index = drop_bit 2 (uint (aacframe ! 2) AND 0x3C),
       frame_channel_config_index =
         (uint (aacframe ! 2) AND push_bit 2 0x01) OR drop_bit 6 (uint (aacframe ! 3) AND 0xC0),
       frame_size = sz,
       frame_bytes = take (nat sz) aacframe \<rparr>"

text \<open>
  The inner \<^verbatim>\<open>while(1)\<close> loop of \<^verbatim>\<open>simplest_aac_parser\<close>. \<^verbatim>\<open>input_data\<close> is an offset into
  \<^verbatim>\<open>aacbuffer\<close>, so \<^verbatim>\<open>getADTSframe\<close> is given the memory from that offset to the end of the
  buffer. The loop is left with the code \<open>-1\<close> or \<open>1\<close>; after a frame it goes on with
  \<^verbatim>\<open>data_size -= size; input_data += size\<close> (the size is never negative). A frame of
  size 0 keeps it turning for ever, so it is a partial function.
\<close>

partial_function (option) aac_frames ::
  "byte list \<Rightarrow> nat \<Rightarrow> int \<Rightarrow> byte list \<Rightarrow> int \<Rightarrow> int \<Rightarrow> adts_frame list
   \<Rightarrow> (int \<times> nat \<times> int \<times> byte list \<times> int \<times> int \<times> adts_frame list) option" where
  "aac_frames aacbuffer input_data data_size aacframe sz n acc =
     (case getADTSframe (Some (drop input_data aacbuffer)) data_size (Some aacframe) (Some sz) of
        Some (ret, Some aacframe', Some sz') \<Rightarrow>
          if ret = - 1 then Some (ret, input_data, data_size, aacframe', sz', n, acc)
          else if ret = 1 then Some (ret, input_data, data_size, aacframe', sz', n, acc)
          else aac_frames aacbuffer (input_data + nat sz') (data_size - sz') aacframe' sz'
                 (n + 1) (acc @ [adts_line n aacframe' sz'])
      | _ \<Rightarrow> None)"

declare aac_frames.simps [code]

text \<open>
  The state that the outer loop keeps: the two \<^verbatim>\<open>malloc\<close> blocks (5120 and 1024*1024
  bytes), \<^verbatim>\<open>offset\<close>, \<^verbatim>\<open>size\<close> and \<^verbatim>\<open>cnt\<close>.
\<close>

record aac_state =
  aacbuffer :: "byte list"
  aacframe :: "byte list"
  offset :: int
  frame_sz :: int
  cnt_aac :: int

text \<open>
  One turn of \<^verbatim>\<open>while(!feof(ifile))\<close>. \<^verbatim>\<open>fread(aacbuffer+offset,1,1024*1024-offset,ifile)\<close>
  stores the bytes at \<^verbatim>\<open>offset\<close>, and \<^verbatim>\<open>data_size\<close> is their number; the inner loop starts at
  \<^verbatim>\<open>input_data = aacbuffer\<close> with that \<^verbatim>\<open>data_size\<close>. When it ends with 1,
  \<^verbatim>\<open>memcpy(aacbuffer,input_data,data_size)\<close> moves the rest of the window to the front
  (the regions may overlap; the copy is taken as that of \<^verbatim>\<open>memmove\<close>) and \<^verbatim>\<open>offset\<close> becomes
  \<^verbatim>\<open>data_size\<close>. When it ends with \<open>-1\<close> nothing is moved and \<^verbatim>\<open>offset\<close> stays.
\<close>

definition aac_turn :: "aac_state \<Rightarrow> FILE \<Rightarrow> (aac_state \<times> FILE \<times> adts_frame list) option" where
  "aac_turn st ifile =
     (if offset st < 0 \<or> 1024 * 1024 < offset st then None
      else
        (let (bs, ifile) = fread ifile (nat (1024 * 1024 - offset st));
             data_size = int (length bs);
             buf = take (nat (offset st)) (aacbuffer st) @ bs
                     @ drop (nat (offset st) + length bs) (aacbuffer st)
         in case aac_frames buf 0 data_size (aacframe st) (frame_sz st) (cnt_aac st) [] of
              None \<Rightarrow> None
            | Some (ret, input_data, data_size, fr, sz, n, frames) \<Rightarrow>
                if ret = 1 then
                  (case memcpy buf (drop input_data buf) data_size of
                     None \<Rightarrow> None
                   | Some buf' \<Rightarrow>
                       Some (\<lparr> aacbuffer = buf', aacframe = fr, offset = data_size,
                               frame_sz = sz, cnt_aac = n \<rparr>, ifile, frames))
                else
                  Some (\<lparr> aacbuffer = buf, aacframe = fr, offset = offset st,
                          frame_sz = sz, cnt_aac = n \<rparr>, ifile, frames)))"

partial_function (option) aac_loop ::
  "aac_state \<Rightarrow> FILE \<Rightarrow> adts_frame list \<Rightarrow> adts_frame list option" where
  "aac_loop st ifile acc =
     (if feof ifile then Some acc
      else
        (case aac_turn st ifile of
           None \<Rightarrow> None
         | Some (st', ifile', frames) \<Rightarrow> aac_loop st' ifile' (acc @ frames)))"

declare aac_loop.simps [code]

text \<open>
  \<^verbatim>\<open>simplest_aac_parser\<close>. The first two arguments are what the two \<^verbatim>\<open>malloc\<close> blocks hold
  when they are handed out.
\<close>

definition simplest_aac_parser :: "byte list \<Rightarrow> byte list \<Rightarrow> byte list \<Rightarrow> adts_frame list option" where
  "simplest_aac_parser aacframe0 aacbuffer0 bytes =
     aac_loop \<lparr> aacbuffer = aacbuffer0, aacframe = aacframe0, offset = 0,
                frame_sz = 0, cnt_aac = 0 \<rparr> (fopen bytes) []"

text \<open>
  The same inner loop over a buffer that holds the whole stream at once: what the parser
  prints when a single \<^verbatim>\<open>fread\<close> delivers the stream.
\<close>

definition adts_frames_of_buffer :: "byte list \<Rightarrow> byte list \<Rightarrow> adts_frame list option" where
  "adts_frames_of_buffer aacframe0 stream =
     map_option (\<lambda>(ret, input_data, data_size, fr, sz, n, frames). frames)
       (aac_frames stream 0 (int (length stream)) aacframe0 0 0 [])"

text \<open>
  A well-formed ADTS frame: at least the 7 header bytes, the sync word at its start, and a
  length field that is the length of the frame.
\<close>

definition adts_wf :: "byte list \<Rightarrow> bool" where
  "adts_wf F = (7 \<le> length F \<and> uint (F ! 0) = 0xff \<and> uint (F ! 1) AND 0xf0 = 0xf0 \<and>
                adts_size (F ! 3) (F ! 4) (F ! 5) = int (length F))"

text \<open>
  The lines of the table for \<open>k\<close> copies of the frame \<open>F\<close>; \<^verbatim>\<open>aacframe\<close> keeps the bytes
  behind the frame from what it held before.
\<close>

abbreviation frames_upto :: "byte list \<Rightarrow> byte list \<Rightarrow> nat \<Rightarrow> adts_frame list" where
  "frames_upto F fr0 k \<equiv>
     map (\<lambda>j. adts_line (int j) (F @ drop (length F) fr0) (int (length F))) [0..<k]"

section \<open>Properties of the ADTS frame reader\<close>

lemma nth_tl': "xs \<noteq> [] \<Longrightarrow> tl xs ! i = xs ! Suc i"
  by (cases xs) auto

lemma adts_scan_Inr:
  "adts_scan buffer n = Some (Inr (b', n', sz)) \<Longrightarrow>
    \<exists>k. b' = drop k buffer \<and> n' = n - int k \<and> 7 \<le> n' \<and> k + 5 < length buffer \<and>
        adts_sync (buffer ! k) (buffer ! (k+1)) \<and>
        (\<forall>j<k. \<not> adts_sync (buffer ! j) (buffer ! (j+1))) \<and>
        sz = adts_size (buffer!(k+3)) (buffer!(k+4)) (buffer!(k+5))"
proof (induction buffer n rule: adts_scan.induct)
  case (1 buffer buf_size)
  from "1.prems" have big: "\<not> buf_size < 7"
    by (subst (asm) adts_scan.simps) (auto split: if_splits)
  from "1.prems" big obtain b0 where b0: "rd buffer 0 = Some b0"
    by (subst (asm) adts_scan.simps) (auto split: if_splits option.splits)
  then have ne: "buffer \<noteq> []" and b0v: "b0 = buffer ! 0"
    by (auto simp: rd_def split: if_splits)
  show ?case
  proof (cases "uint b0 = 0xff")
    case ff: True
    from "1.prems" big b0 ff obtain b1 where b1: "rd buffer 1 = Some b1"
      by (subst (asm) adts_scan.simps) (auto split: if_splits option.splits)
    then have b1v: "b1 = buffer ! 1" by (auto simp: rd_def split: if_splits)
    show ?thesis
    proof (cases "uint b1 AND 0xf0 = 0xf0")
      case True
      from "1.prems" big b0 ff b1 True
      have "\<exists>b3 b4 b5. rd buffer 3 = Some b3 \<and> rd buffer 4 = Some b4 \<and> rd buffer 5 = Some b5
             \<and> b' = buffer \<and> n' = buf_size \<and> sz = adts_size b3 b4 b5"
        by (subst (asm) adts_scan.simps) (auto split: if_splits option.splits)
      then show ?thesis using big ff True b0v b1v
        by (intro exI[of _ 0]) (auto simp: rd_def adts_sync_def split: if_splits)
    next
      case False
      from "1.prems" big b0 ff b1 False
      have rec: "adts_scan (tl buffer) (buf_size - 1) = Some (Inr (b', n', sz))"
        by (subst (asm) adts_scan.simps) (auto split: if_splits option.splits)
      from "1.IH"(1)[OF big b0 ff b1 False rec] obtain k where k:
        "b' = drop k (tl buffer)" "n' = buf_size - 1 - int k" "7 \<le> n'" "k + 5 < length (tl buffer)"
        "adts_sync (tl buffer ! k) (tl buffer ! (k+1))"
        "\<forall>j<k. \<not> adts_sync (tl buffer ! j) (tl buffer ! (j+1))"
        "sz = adts_size (tl buffer!(k+3)) (tl buffer!(k+4)) (tl buffer!(k+5))"
        by blast
      have n0: "\<not> adts_sync (buffer ! 0) (buffer ! (0 + 1))"
        using False b1v by (simp add: adts_sync_def)
      have all: "\<forall>j<Suc k. \<not> adts_sync (buffer ! j) (buffer ! (j+1))"
      proof (intro allI impI)
        fix j assume "j < Suc k"
        show "\<not> adts_sync (buffer ! j) (buffer ! (j+1))"
        proof (cases j)
          case 0 then show ?thesis using n0 by simp
        next
          case (Suc i)
          with \<open>j < Suc k\<close> k(6) have "\<not> adts_sync (tl buffer ! i) (tl buffer ! (i+1))" by simp
          then show ?thesis using Suc ne by (simp add: nth_tl')
        qed
      qed
      show ?thesis
        using k ne all
        by (intro exI[of _ "Suc k"]) (auto simp: nth_tl' drop_Suc)
    qed
  next
    case False
    from "1.prems" big b0 False
    have rec: "adts_scan (tl buffer) (buf_size - 1) = Some (Inr (b', n', sz))"
      by (subst (asm) adts_scan.simps) (auto split: if_splits option.splits)
    from "1.IH"(2)[OF big b0 False rec] obtain k where k:
      "b' = drop k (tl buffer)" "n' = buf_size - 1 - int k" "7 \<le> n'" "k + 5 < length (tl buffer)"
      "adts_sync (tl buffer ! k) (tl buffer ! (k+1))"
      "\<forall>j<k. \<not> adts_sync (tl buffer ! j) (tl buffer ! (j+1))"
      "sz = adts_size (tl buffer!(k+3)) (tl buffer!(k+4)) (tl buffer!(k+5))"
      by blast
    have n0: "\<not> adts_sync (buffer ! 0) (buffer ! (0 + 1))"
      using False b0v by (simp add: adts_sync_def)
    have all: "\<forall>j<Suc k. \<not> adts_sync (buffer ! j) (buffer ! (j+1))"
    proof (intro allI impI)
      fix j assume "j < Suc k"
      show "\<not> adts_sync (buffer ! j) (buffer ! (j+1))"
      proof (cases j)
        case 0 then show ?thesis using n0 by simp
      next
        case (Suc i)
        with \<open>j < Suc k\<close> k(6) have "\<not> adts_sync (tl buffer ! i) (tl buffer ! (i+1))" by simp
        then show ?thesis using Suc ne by (simp add: nth_tl')
      qed
    qed
    show ?thesis
      using k ne all
      by (intro exI[of _ "Suc k"]) (auto simp: nth_tl' drop_Suc)
  qed
qed

lemma adts_scan_Inl: "adts_scan buffer n = Some (Inl r) \<Longrightarrow> r = - 1 \<and> n - 7 < int (length buffer)"
proof (induction buffer n rule: adts_scan.induct)
  case (1 buffer buf_size)
  show ?case
  proof (cases "buf_size < 7")
    case True
    with "1.prems" show ?thesis
      by (subst (asm) adts_scan.simps) simp
  next
    case False
    from "1.prems" False obtain b0 where b0: "rd buffer 0 = Some b0"
      by (subst (asm) adts_scan.simps) (auto split: option.splits)
    then have ne: "buffer \<noteq> []" by (auto simp: rd_def split: if_splits)
    have "adts_scan (tl buffer) (buf_size - 1) = Some (Inl r)"
      using "1.prems" False b0
      by (subst (asm) adts_scan.simps) (auto split: option.splits if_splits)
    moreover have "adts_scan (tl buffer) (buf_size - 1) = Some (Inl r) \<Longrightarrow>
        r = - 1 \<and> buf_size - 1 - 7 < int (length (tl buffer))"
      using "1.IH" "1.prems" False b0
      by (subst (asm) (2) adts_scan.simps) (auto split: option.splits if_splits)
    ultimately show ?thesis using ne by (cases buffer) auto
  qed
qed

lemma adts_size_bounds: "0 \<le> adts_size b3 b4 b5 \<and> adts_size b3 b4 b5 \<le> 8191"
proof -
  have a: "0 \<le> push_bit 11 (uint b3 AND 0x03)" "push_bit 11 (uint b3 AND 0x03) < 2 ^ 13"
  proof -
    have "uint b3 AND 3 \<le> 3" by (rule AND_upper2) simp
    moreover have "0 \<le> uint b3 AND 3" by simp
    ultimately show "0 \<le> push_bit 11 (uint b3 AND 0x03)" "push_bit 11 (uint b3 AND 0x03) < 2 ^ 13"
      by (simp_all add: push_bit_eq_mult)
  qed
  have b: "0 \<le> push_bit 3 (uint b4)" "push_bit 3 (uint b4) < 2 ^ 13"
  proof -
    have "uint b4 < 256" using uint_bounded[of b4] by simp
    then show "0 \<le> push_bit 3 (uint b4)" "push_bit 3 (uint b4) < 2 ^ 13"
      by (simp_all add: push_bit_eq_mult)
  qed
  have c: "0 \<le> drop_bit 5 (uint b5 AND 0xe0)" "drop_bit 5 (uint b5 AND 0xe0) < 2 ^ 13"
  proof -
    have "uint b5 AND 0xe0 \<le> 0xe0" by (rule AND_upper2) simp
    moreover have "0 \<le> uint b5 AND 0xe0" by simp
    ultimately have "0 \<le> (uint b5 AND 0xe0) div 32" "(uint b5 AND 0xe0) div 32 < 8192"
      by linarith+
    then show "0 \<le> drop_bit 5 (uint b5 AND 0xe0)" "drop_bit 5 (uint b5 AND 0xe0) < 2 ^ 13"
      by (simp_all add: drop_bit_eq_div)
  qed
  define x where "x = push_bit 11 (uint b3 AND 0x03)"
  define y where "y = push_bit 3 (uint b4)"
  define z where "z = drop_bit 5 (uint b5 AND 0xe0)"
  note a' = a[folded x_def] and b' = b[folded y_def] and c' = c[folded z_def]
  have ab: "0 \<le> x OR y" "x OR y < 2 ^ 13"
    using a' b' OR_upper[of x 13 y] by simp_all
  have "0 \<le> (x OR y) OR z" "(x OR y) OR z < 2 ^ 13"
    using ab c' OR_upper[of "x OR y" 13 z] by simp_all
  then show ?thesis by (simp add: adts_size_def Let_def x_def y_def z_def)
qed


lemma adts_size_spec: "adts_size b3 b4 b5 = frame_length_spec b3 b4 b5"
  by (simp add: adts_size_def frame_length_spec_def Let_def or.assoc)

lemma getADTSframe_emitted:
  assumes "getADTSframe (Some buffer) buf_size (Some dat) (Some dsz) = Some (0, Some dat', Some n)"
  shows "\<exists>k. int k + 7 \<le> buf_size \<and> k + 5 < length buffer \<and>
           adts_sync (buffer ! k) (buffer ! (k + 1)) \<and>
           (\<forall>j<k. \<not> adts_sync (buffer ! j) (buffer ! (j + 1))) \<and>
           n = adts_size (buffer ! (k + 3)) (buffer ! (k + 4)) (buffer ! (k + 5)) \<and>
           n \<le> buf_size - int k \<and> nat n \<le> length dat \<and> nat n \<le> length buffer - k \<and>
           dat' = take (nat n) (drop k buffer) @ drop (nat n) dat"
proof -
  from assms obtain b' n' where
    scan: "adts_scan buffer buf_size = Some (Inr (b', n', n))" and
    fits: "\<not> n' < n" and cp: "memcpy dat b' n = Some dat'"
    by (auto simp: getADTSframe_def split: option.splits sum.splits if_splits
          dest: adts_scan_Inl)
  from adts_scan_Inr[OF scan] obtain k where k:
    "b' = drop k buffer" "n' = buf_size - int k" "7 \<le> n'" "k + 5 < length buffer"
    "adts_sync (buffer ! k) (buffer ! (k+1))"
    "\<forall>j<k. \<not> adts_sync (buffer ! j) (buffer ! (j+1))"
    "n = adts_size (buffer!(k+3)) (buffer!(k+4)) (buffer!(k+5))"
    by blast
  from cp k(1) have "nat n \<le> length dat" "nat n \<le> length buffer - k"
    "dat' = take (nat n) (drop k buffer) @ drop (nat n) dat"
    by (auto simp: memcpy_def split: if_splits)
  with k fits show ?thesis
    by (intro exI[of _ k]) auto
qed

text \<open>
  C4 (amended). Every frame that \<^verbatim>\<open>getADTSframe\<close> emits (return code 0) has as its length
  the frame length decoded, by the formula of the format description, from bytes 3, 4 and 5
  after the first sync position \<open>k\<close> of the window, and its bytes are the bytes of the
  window from that position. The decoded length lies between 0 and 8191 and does not
  exceed the bytes left in the window; the code enforces no lower bound of 7.
\<close>

theorem getADTSframe_length_is_decoded:
  assumes "getADTSframe (Some buffer) buf_size (Some dat) (Some dsz) = Some (0, Some dat', Some n)"
  shows "\<exists>k. int k + 7 \<le> buf_size \<and> k + 5 < length buffer \<and>
           adts_sync (buffer ! k) (buffer ! (k + 1)) \<and>
           (\<forall>j<k. \<not> adts_sync (buffer ! j) (buffer ! (j + 1))) \<and>
           n = frame_length_spec (buffer ! (k + 3)) (buffer ! (k + 4)) (buffer ! (k + 5)) \<and>
           0 \<le> n \<and> n \<le> 8191 \<and> n \<le> buf_size - int k \<and>
           take (nat n) dat' = take (nat n) (drop k buffer) \<and>
           int (length (take (nat n) dat')) = n"
proof -
  from getADTSframe_emitted[OF assms] obtain k where k:
    "int k + 7 \<le> buf_size" "k + 5 < length buffer"
    "adts_sync (buffer ! k) (buffer ! (k + 1))"
    "\<forall>j<k. \<not> adts_sync (buffer ! j) (buffer ! (j + 1))"
    "n = adts_size (buffer ! (k + 3)) (buffer ! (k + 4)) (buffer ! (k + 5))"
    "n \<le> buf_size - int k" "nat n \<le> length dat" "nat n \<le> length buffer - k"
    "dat' = take (nat n) (drop k buffer) @ drop (nat n) dat"
    by blast
  have bounds: "0 \<le> n" "n \<le> 8191"
    using adts_size_bounds[of "buffer ! (k + 3)" "buffer ! (k + 4)" "buffer ! (k + 5)"] k(5)
    by simp_all
  have tk: "take (nat n) dat' = take (nat n) (drop k buffer)"
    using k(8,9) by simp
  have len: "int (length (take (nat n) dat')) = n"
    using k(7,8,9) bounds by simp
  show ?thesis
    using k(1-4,6) k(5)[unfolded adts_size_spec] bounds tk len
    by (intro exI[of _ k]) simp
qed

theorem getADTSframe_length_is_decoded_witness:
  "getADTSframe (Some [0, 0xff, 0xf1, 0x50, 0x80, 0x01, 0x1f, 0xfc, 0x21]) 9
       (Some [0, 0, 0, 0, 0, 0, 0, 0, 0, 0]) (Some 0)
     = Some (0, Some [0xff, 0xf1, 0x50, 0x80, 0x01, 0x1f, 0xfc, 0x21, 0, 0], Some 8) \<and>
   (\<exists>k. int k + 7 \<le> 9 \<and>
      (8::int) = frame_length_spec
         ([0, 0xff, 0xf1, 0x50, 0x80, 0x01, 0x1f, 0xfc, 0x21] ! (k + 3))
         ([0, 0xff, 0xf1, 0x50, 0x80, 0x01, 0x1f, 0xfc, 0x21] ! (k + 4))
         ([0, 0xff, 0xf1, 0x50, 0x80, 0x01, 0x1f, 0xfc, 0x21] ! (k + 5)))"
proof -
  have h: "getADTSframe (Some [0, 0xff, 0xf1, 0x50, 0x80, 0x01, 0x1f, 0xfc, 0x21]) 9
       (Some [0, 0, 0, 0, 0, 0, 0, 0, 0, 0]) (Some 0)
     = Some (0, Some [0xff, 0xf1, 0x50, 0x80, 0x01, 0x1f, 0xfc, 0x21, 0, 0], Some 8)"
    by (simp add: getADTSframe_def adts_scan.simps rd_def memcpy_def adts_size_def)
  from getADTSframe_length_is_decoded[OF h] show ?thesis
    using h by blast
qed

text \<open>
  C4, as stated, fails: a header whose length field is 3 is emitted as a 3-byte frame
  (return code 0 and \<^verbatim>\<open>*data_size = 3\<close>), below the 7 bytes of an ADTS header.
\<close>

theorem getADTSframe_short_frame_emitted:
  "getADTSframe (Some [0xff, 0xf1, 0x50, 0x80, 0x00, 0x60, 0xfc]) 7
       (Some [0, 0, 0, 0, 0, 0, 0, 0]) (Some 0)
     = Some (0, Some [0xff, 0xf1, 0x50, 0, 0, 0, 0, 0], Some 3) \<and>
   frame_length_spec 0x80 0x00 0x60 = 3 \<and> \<not> (7 \<le> frame_length_spec 0x80 0x00 0x60)"
  by (simp add: getADTSframe_def adts_scan.simps rd_def memcpy_def adts_size_def frame_length_spec_def)

text \<open>
  C10 (amended). The copy starts at the first sync position \<open>k\<close> of the window. Hence every
  emitted frame of at least two bytes begins with \<open>0xFF\<close> followed by a byte whose top four
  bits are all set. (Frames of decoded length 0 or 1 are emitted as well and have no such
  two bytes; the destination then keeps what it held.)
\<close>

theorem getADTSframe_starts_with_sync:
  assumes "getADTSframe (Some buffer) buf_size (Some dat) (Some dsz) = Some (0, Some dat', Some n)"
    and "2 \<le> n"
  shows "uint (dat' ! 0) = 0xff \<and> uint (dat' ! 1) AND 0xf0 = 0xf0 \<and>
         (\<exists>k. adts_sync (buffer ! k) (buffer ! (k + 1)) \<and>
              take (nat n) dat' = take (nat n) (drop k buffer))"
proof -
  from getADTSframe_emitted[OF assms(1)] obtain k where k:
    "int k + 7 \<le> buf_size" "k + 5 < length buffer"
    "adts_sync (buffer ! k) (buffer ! (k + 1))"
    "nat n \<le> length dat" "nat n \<le> length buffer - k"
    "dat' = take (nat n) (drop k buffer) @ drop (nat n) dat"
    by blast
  have l: "length (take (nat n) (drop k buffer)) = nat n" using k(5) by simp
  have "dat' ! 0 = buffer ! k" "dat' ! 1 = buffer ! (k + 1)"
    using k(2,5,6) assms(2) l by (simp_all add: nth_append)
  moreover have "take (nat n) dat' = take (nat n) (drop k buffer)"
    using k(5,6) by simp
  ultimately show ?thesis
    using k(3) by (auto simp: adts_sync_def)
qed

theorem getADTSframe_starts_with_sync_witness:
  "getADTSframe (Some [0x12, 0xff, 0xf9, 0x50, 0x80, 0x01, 0x1f, 0xfc, 0x21]) 9
       (Some [0, 0, 0, 0, 0, 0, 0, 0, 0, 0]) (Some 0)
     = Some (0, Some [0xff, 0xf9, 0x50, 0x80, 0x01, 0x1f, 0xfc, 0x21, 0, 0], Some 8) \<and>
   (2::int) \<le> 8 \<and>
   uint ([0xff, 0xf9, 0x50, 0x80, 0x01, 0x1f, 0xfc, 0x21, 0, 0 :: byte] ! 0) = 0xff \<and>
   uint ([0xff, 0xf9, 0x50, 0x80, 0x01, 0x1f, 0xfc, 0x21, 0, 0 :: byte] ! 1) AND 0xf0 = 0xf0"
proof -
  have h: "getADTSframe (Some [0x12, 0xff, 0xf9, 0x50, 0x80, 0x01, 0x1f, 0xfc, 0x21]) 9
       (Some [0, 0, 0, 0, 0, 0, 0, 0, 0, 0]) (Some 0)
     = Some (0, Some [0xff, 0xf9, 0x50, 0x80, 0x01, 0x1f, 0xfc, 0x21, 0, 0], Some 8)"
    by (simp add: getADTSframe_def adts_scan.simps rd_def memcpy_def adts_size_def)
  have g: "(2::int) \<le> 8" by simp
  from getADTSframe_starts_with_sync[OF h g] show ?thesis
    using h by simp
qed

text \<open>
  C10, as stated, fails: a header whose length field is 0 is emitted (return code 0) as an
  empty frame, and the frame buffer still holds its old first byte \<open>0x11\<close>, not \<open>0xFF\<close>.
\<close>

theorem getADTSframe_empty_frame_no_sync:
  "getADTSframe (Some [0xff, 0xf1, 0x50, 0x80, 0x00, 0x1f, 0xfc]) 7
       (Some [0x11, 0x22, 0x33]) (Some 0)
     = Some (0, Some [0x11, 0x22, 0x33], Some 0) \<and>
   uint ([0x11, 0x22, 0x33 :: byte] ! 0) \<noteq> 0xff"
  by (simp add: getADTSframe_def adts_scan.simps rd_def memcpy_def adts_size_def)

section \<open>Properties of the RTP extractor\<close>

lemma mpegts_loop_char:
  assumes "0 \<le> i" "n \<le> int (length rtp_data)"
  shows "\<exists>k. mpegts_loop rtp_data n i = Some (map (\<lambda>j. i + 188 * int j) [0..<k]) \<and>
           (\<forall>j<k. i + 188 * int j < n \<and> uint (rtp_data ! nat (i + 188 * int j)) = 0x47) \<and>
           (i + 188 * int k < n \<longrightarrow> uint (rtp_data ! nat (i + 188 * int k)) \<noteq> 0x47)"
  using assms
proof (induction rtp_data n i rule: mpegts_loop.induct)
  case (1 rtp_data n i)
  show ?case
  proof (cases "i < n")
    case False
    then have "mpegts_loop rtp_data n i = Some []"
      by (subst mpegts_loop.simps) simp
    then show ?thesis using False by (intro exI[of _ 0]) simp
  next
    case True
    with "1.prems" have r: "rd rtp_data (nat i) = Some (rtp_data ! nat i)"
      by (simp add: rd_def)
    show ?thesis
    proof (cases "uint (rtp_data ! nat i) \<noteq> 0x47")
      case t: True
      then have "mpegts_loop rtp_data n i = Some []"
        using True "1.prems" r by (subst mpegts_loop.simps) simp
      then show ?thesis using t by (intro exI[of _ 0]) simp
    next
      case f: False
      have ni: "\<not> i < 0" using "1.prems" by simp
      from "1.IH"[OF True ni r f] "1.prems" obtain k where k:
        "mpegts_loop rtp_data n (i + 188) = Some (map (\<lambda>j. i + 188 + 188 * int j) [0..<k])"
        "\<forall>j<k. i + 188 + 188 * int j < n \<and> uint (rtp_data ! nat (i + 188 + 188 * int j)) = 0x47"
        "i + 188 + 188 * int k < n \<longrightarrow> uint (rtp_data ! nat (i + 188 + 188 * int k)) \<noteq> 0x47"
        by auto
      have e: "mpegts_loop rtp_data n i = Some (i # map (\<lambda>j. i + 188 + 188 * int j) [0..<k])"
        using True ni r f k(1) by (subst mpegts_loop.simps) simp
      have m: "i # map (\<lambda>j. i + 188 + 188 * int j) [0..<k] = map (\<lambda>j. i + 188 * int j) [0..<Suc k]"
      proof -
        have "[0..<Suc k] = 0 # map Suc [0..<k]"
          by (simp add: upt_conv_Cons map_Suc_upt del: upt_Suc)
        then show ?thesis by (simp add: o_def algebra_simps del: upt_Suc)
      qed
      have a: "\<forall>j<Suc k. i + 188 * int j < n \<and> uint (rtp_data ! nat (i + 188 * int j)) = 0x47"
      proof (intro allI impI)
        fix j assume j: "j < Suc k"
        show "i + 188 * int j < n \<and> uint (rtp_data ! nat (i + 188 * int j)) = 0x47"
        proof (cases j)
          case 0 then show ?thesis using True f by simp
        next
          case (Suc j')
          with j k(2) have "i + 188 + 188 * int j' < n \<and> uint (rtp_data ! nat (i + 188 + 188 * int j')) = 0x47"
            by simp
          then show ?thesis using Suc by (simp add: algebra_simps)
        qed
      qed
      have b: "i + 188 * int (Suc k) < n \<longrightarrow> uint (rtp_data ! nat (i + 188 * int (Suc k))) \<noteq> 0x47"
        using k(3) by (simp add: algebra_simps)
      show ?thesis using e m a b by (intro exI[of _ "Suc k"]) (simp del: upt_Suc)
    qed
  qed
qed

lemma recvfrom_short:
  "length d \<le> 10000 \<Longrightarrow> recvfrom b (Some d) = (int (length d), d @ drop (length d) b)"
  by (simp add: recvfrom_def min_def)

text \<open>A datagram of a payload type whose description fits, for comparison.\<close>

lemma udp_packet_audio:
  "map_option (\<lambda>(st, out). (cnt st, map_option (\<lambda>out. (rtp_row out, dumped out, mpegts_pkts out)) out))
     (udp_packet \<lparr> recvData = replicate 10000 0, cnt = 0 \<rparr>
        (Some [0x80, 0x01, 0x00, 0x07, 0, 0, 0x03, 0xe8, 1, 2, 3, 4, 0x47]))
   = Some (1, Some ((0, ''media type:Audio'', 1000, 7, 13), [0x47], []))"
  by (simp add: udp_packet_def recvfrom_def Let_def rtp_header_of_def payload_str_of_def
        sprintf_def fmt_media_def fwrite_def ntohl_def ntohs_def host16_def host32_def)

text \<open>
  C7. The claim fails on the code. For payload type 33 the description
  \<^verbatim>\<open>encoding name: MP2T,media type: AV,clock rate:90khz\<close> has 51 characters, so \<^verbatim>\<open>sprintf\<close>
  writes 52 bytes into \<^verbatim>\<open>payload_str[50]\<close>: every datagram of that type makes the turn
  write outside the array before a line is printed, and nothing is reported for it. And
  the loop that splits the payload looks only at the first byte of each chunk, never at
  the number of bytes left: for a datagram of 13 bytes, whose payload is the single byte
  \<open>0x47\<close> and holds no chunk of 188 bytes, it reports a packet at offset 0.
\<close>

theorem udp_packet_mpegts_overrun:
  assumes "2 \<le> length d" and "uint (d ! 1) AND 0x7f = 33"
  shows "sprintf 50 (fmt_enc3 ''MP2T'' ''AV'' ''90khz'') = None \<and>
         udp_packet st (Some d) = None \<and>
         (length d = 13 \<and> d ! 12 = 0x47 \<longrightarrow>
            mpegts_loop (drop 12 (snd (recvfrom (recvData st) (Some d))))
              (fst (recvfrom (recvData st) (Some d)) - 12) 0 = Some [0])"
proof -
  define buf where "buf = take 10000 d @ drop (min (length d) 10000) (recvData st)"
  have s: "sprintf 50 (fmt_enc3 ''MP2T'' ''AV'' ''90khz'') = None"
    by (simp add: sprintf_def fmt_enc3_def)
  have pk: "int (min (length d) 10000) > 0" using assms(1) by (cases d) auto
  have "take 12 buf ! 1 = d ! 1" using assms(1) by (simp add: buf_def nth_append)
  then have pl: "payload (rtp_header_of (take 12 buf)) = 33"
    using assms(2) by (simp add: rtp_header_of_def)
  have ps: "payload_str_of 33 = None" by (simp add: payload_str_of_def s)
  have u: "udp_packet st (Some d) = None"
    using pk pl ps by (simp add: udp_packet_def recvfrom_def Let_def buf_def[symmetric])
  have m: "mpegts_loop (drop 12 (snd (recvfrom (recvData st) (Some d))))
              (fst (recvfrom (recvData st) (Some d)) - 12) 0 = Some [0]"
    if h: "length d = 13 \<and> d ! 12 = 0x47"
  proof -
    have "d ! 12 # drop (Suc 12) d = drop 12 d"
      by (rule Cons_nth_drop_Suc) (use h in simp)
    moreover have "drop (Suc 12) d = []" using h by simp
    ultimately have "drop 12 d = [d ! 12]" by simp
    then have "drop 12 (snd (recvfrom (recvData st) (Some d))) = 0x47 # drop 13 (recvData st)"
      using h by (simp add: recvfrom_def)
    moreover have "fst (recvfrom (recvData st) (Some d)) - 12 = 1" using h by (simp add: recvfrom_def)
    ultimately show ?thesis by (simp add: mpegts_loop.simps rd_def)
  qed
  show ?thesis using s u m by simp
qed

theorem udp_packet_mpegts_overrun_witness:
  "2 \<le> length [0x80, 0x21, 0x00, 0x07, 0, 0, 0x03, 0xe8, 1, 2, 3, 4, 0x47 :: byte] \<and>
   uint ([0x80, 0x21, 0x00, 0x07, 0, 0, 0x03, 0xe8, 1, 2, 3, 4, 0x47 :: byte] ! 1) AND 0x7f = 33 \<and>
   udp_packet \<lparr> recvData = replicate 10000 0, cnt = 0 \<rparr>
     (Some [0x80, 0x21, 0x00, 0x07, 0, 0, 0x03, 0xe8, 1, 2, 3, 4, 0x47]) = None \<and>
   mpegts_loop (drop 12 (snd (recvfrom (replicate 10000 0)
       (Some [0x80, 0x21, 0x00, 0x07, 0, 0, 0x03, 0xe8, 1, 2, 3, 4, 0x47])))) 1 0 = Some [0]"
proof -
  let ?d = "[0x80, 0x21, 0x00, 0x07, 0, 0, 0x03, 0xe8, 1, 2, 3, 4, 0x47 :: byte]"
  let ?st = "\<lparr> recvData = replicate 10000 0, cnt = 0 \<rparr>"
  have h1: "2 \<le> length ?d" by simp
  have h2: "uint (?d ! 1) AND 0x7f = 33" by simp
  have h3: "length ?d = 13 \<and> ?d ! 12 = 0x47" by simp
  have f: "fst (recvfrom (recvData ?st) (Some ?d)) - 12 = 1" by (simp add: recvfrom_def)
  from udp_packet_mpegts_overrun[OF h1 h2, of ?st] h3
  have "udp_packet ?st (Some ?d) = None"
    and "mpegts_loop (drop 12 (snd (recvfrom (recvData ?st) (Some ?d))))
              (fst (recvfrom (recvData ?st) (Some ?d)) - 12) 0 = Some [0]"
    by blast+
  then show ?thesis using h1 h2 unfolding f by simp
qed

text \<open>
  C6. The claim fails on the code. The only test on the size of a datagram is
  \<^verbatim>\<open>pktsize > 0\<close>. For a datagram of 1 to 11 bytes the header is copied from the first
  twelve bytes of \<^verbatim>\<open>recvData\<close>, the \<^verbatim>\<open>[RTP Pkt]\<close> line is formatted from it, and \<^verbatim>\<open>fwrite\<close> is
  called on the payload with \<^verbatim>\<open>rtp_data_size = pktsize - 12\<close>, which is negative. The datagram
  is not turned away with an error: the turn reads outside the buffer.
\<close>

theorem udp_packet_short_datagram_not_rejected:
  assumes "0 < length d" and "length d < 12"
  shows "fwrite (drop 12 (d @ drop (length d) (recvData st))) (int (length d) - 12) = None \<and>
         udp_packet st (Some d) = None"
proof -
  have r: "recvfrom (recvData st) (Some d) = (int (length d), d @ drop (length d) (recvData st))"
    using assms(2) by (intro recvfrom_short) simp
  have f: "fwrite b (int (length d) - 12) = None" for b
    using assms(2) by (simp add: fwrite_def)
  have "udp_packet st (Some d) = None"
    using assms(1) by (simp add: udp_packet_def r Let_def f split: option.splits)
  then show ?thesis using f by simp
qed

theorem udp_packet_short_datagram_not_rejected_witness:
  "0 < length [0x80, 0x01 :: byte] \<and> length [0x80, 0x01 :: byte] < 12 \<and>
   payload_str_of (payload (rtp_header_of
      (take 12 ([0x80, 0x01] @ drop 2 (replicate 10000 0))))) = Some ''media type:Audio'' \<and>
   udp_packet \<lparr> recvData = replicate 10000 0, cnt = 0 \<rparr> (Some [0x80, 0x01]) = None"
proof -
  have h1: "0 < length [0x80, 0x01 :: byte]" by simp
  have h2: "length [0x80, 0x01 :: byte] < 12" by simp
  have p: "payload_str_of (payload (rtp_header_of
      (take 12 ([0x80, 0x01] @ drop 2 (replicate 10000 0))))) = Some ''media type:Audio''"
    by (simp add: rtp_header_of_def payload_str_of_def sprintf_def fmt_media_def)
  from udp_packet_short_datagram_not_rejected[OF h1 h2, of "\<lparr> recvData = replicate 10000 0, cnt = 0 \<rparr>"]
  have "udp_packet \<lparr> recvData = replicate 10000 0, cnt = 0 \<rparr> (Some [0x80, 0x01]) = None" by blast
  then show ?thesis using h1 h2 p by blast
qed

section \<open>Properties of the NAL unit reader\<close>

lemma FindStartCode2_iff: "length xs = 3 \<Longrightarrow> (FindStartCode2 xs = 1) = (xs = [0, 0, 1])"
proof -
  assume "length xs = 3"
  then obtain a b c where "xs = [a, b, c]"
    by (auto simp: length_Suc_conv eval_nat_numeral)
  then show ?thesis by (auto simp: FindStartCode2_def)
qed

lemma FindStartCode3_iff: "length xs = 4 \<Longrightarrow> (FindStartCode3 xs = 1) = (xs = [0, 0, 0, 1])"
proof -
  assume "length xs = 4"
  then obtain a b c d where "xs = [a, b, c, d]"
    by (auto simp: length_Suc_conv eval_nat_numeral)
  then show ?thesis by (auto simp: FindStartCode3_def)
qed

lemma FindStartCode3_last:
  "length xs = 4 \<Longrightarrow> xs ! 3 \<noteq> 1 \<Longrightarrow> FindStartCode3 xs = 0"
  by (simp add: FindStartCode3_def)

lemma FindStartCode2_last:
  "length xs = 3 \<Longrightarrow> xs ! 2 \<noteq> 1 \<Longrightarrow> FindStartCode2 xs = 0"
  by (simp add: FindStartCode2_def)

text \<open>What the scan loop returns, for a buffer that holds the bytes read since position p.\<close>

lemma nalu_scan_spec:
  assumes "nalu_scan fp Buf m i2 = Some res"
    and "\<not> eof fp" and "fpos fp = p + length Buf" and "fpos fp \<le> length (contents fp)"
    and "Buf = take (length Buf) (drop p (contents fp))" and "3 \<le> length Buf"
  shows "case res of
      AtEof fp' Buf' \<Rightarrow>
        fp' = fp\<lparr> fpos := length (contents fp), eof := True \<rparr> \<and>
        Buf' = drop p (contents fp) @ [0xff] \<and> int (length Buf') \<le> m
    | Found fp' Buf' info2 info3 \<Rightarrow>
        fp' = fp\<lparr> fpos := p + length Buf' \<rparr> \<and> p + length Buf' \<le> length (contents fp) \<and>
        Buf' = take (length Buf') (drop p (contents fp)) \<and> length Buf < length Buf' \<and>
        int (length Buf') \<le> m \<and>
        (if info3 = 1 then drop (length Buf' - 4) Buf' = [0, 0, 0, 1]
         else info2 = 1 \<and> drop (length Buf' - 3) Buf' = [0, 0, 1])"
  using assms
proof (induction fp Buf m i2 rule: nalu_scan.induct)
  case (1 fp Buf m i2)
  let ?c = "contents fp"
  have ne: "\<not> feof fp" using "1.prems"(2) by (simp add: feof_def)
  have room: "\<not> m \<le> int (length Buf)"
    using "1.prems"(1) ne by (subst (asm) nalu_scan.simps) (auto split: if_splits)
  show ?case
  proof (cases "fpos fp < length ?c")
    case False
    then have at_end: "fpos fp = length ?c" using "1.prems"(4) by simp
    have g: "fgetc fp = (- 1, fp\<lparr> eof := True \<rparr>)" using False by (simp add: fgetc_def)
    let ?B = "Buf @ [- 1 :: byte]"
    have w: "(word_of_int (- 1) :: byte) = - 1" by simp
    have ff: "(0xff :: byte) = - 1" by simp
    have l4: "length (drop (length ?B - 4) ?B) = 4" using "1.prems"(6) by simp
    have l3: "length (drop (length ?B - 3) ?B) = 3" using "1.prems"(6) by simp
    have n3: "FindStartCode3 (drop (length ?B - 4) ?B) = 0"
      using "1.prems"(6) by (intro FindStartCode3_last[OF l4]) (simp add: nth_append)
    have n2: "FindStartCode2 (drop (length ?B - 3) ?B) = 0"
      using "1.prems"(6) by (intro FindStartCode2_last[OF l3]) (simp add: nth_append)
    have "nalu_scan fp Buf m i2 = nalu_scan (fp\<lparr> eof := True \<rparr>) ?B m 0"
      using ne room g w n3 n2 by (subst nalu_scan.simps) (simp add: Let_def)
    also have "\<dots> = Some (AtEof (fp\<lparr> eof := True \<rparr>) ?B)"
      by (subst nalu_scan.simps) (simp add: feof_def)
    finally have res: "res = AtEof (fp\<lparr> eof := True \<rparr>) ?B" using "1.prems"(1) by simp
    have "Buf = drop p ?c" using "1.prems"(3,5) at_end
      by (metis add_diff_cancel_left' length_drop order_refl take_all)
    then show ?thesis using res at_end room by (simp add: ff)
  next
    case True
    let ?b = "?c ! fpos fp"
    let ?fp = "fp\<lparr> fpos := fpos fp + 1 \<rparr>"
    let ?B = "Buf @ [?b]"
    have g: "fgetc fp = (uint ?b, ?fp)" using True by (simp add: fgetc_def)
    have B: "?B = take (length ?B) (drop p ?c)"
    proof -
      have "length Buf < length (drop p ?c)" using True "1.prems"(3) by simp
      then have "take (Suc (length Buf)) (drop p ?c) = take (length Buf) (drop p ?c) @ [drop p ?c ! length Buf]"
        by (rule take_Suc_conv_app_nth)
      moreover have "drop p ?c ! length Buf = ?b" using True "1.prems"(3) by simp
      ultimately show ?thesis using "1.prems"(5) by simp
    qed
    have l4: "length (drop (length ?B - 4) ?B) = 4" using "1.prems"(6) by simp
    have l3: "length (drop (length ?B - 3) ?B) = 3" using "1.prems"(6) by simp
    let ?W = "Buf @ [word_of_int (uint ?b) :: byte]"
    have W: "?W = ?B" by simp
    define info3 where "info3 = FindStartCode3 (drop (length ?W - 4) ?W)"
    define info2 where "info2 = (if info3 \<noteq> 1 then FindStartCode2 (drop (length ?W - 3) ?W) else i2)"
    have step: "nalu_scan fp Buf m i2 =
        (if info2 = 1 \<or> info3 = 1 then Some (Found ?fp ?B info2 info3) else nalu_scan ?fp ?B m info2)"
      using ne room g by (subst nalu_scan.simps) (simp add: Let_def info3_def info2_def)
    show ?thesis
    proof (cases "info2 = 1 \<or> info3 = 1")
      case found: True
      then have res: "res = Found ?fp ?B info2 info3" using step "1.prems"(1) by simp
      have tail: "if info3 = 1 then drop (length ?B - 4) ?B = [0, 0, 0, 1]
         else info2 = 1 \<and> drop (length ?B - 3) ?B = [0, 0, 1]"
      proof (cases "info3 = 1")
        case True
        then show ?thesis using FindStartCode3_iff[OF l4] by (simp add: info3_def)
      next
        case False
        then have "info2 = 1" using found by simp
        moreover from this False have "FindStartCode2 (drop (length ?B - 3) ?B) = 1"
          by (simp add: info2_def)
        ultimately show ?thesis using False FindStartCode2_iff[OF l3] by simp
      qed
      have "fpos ?fp = p + length ?B" using "1.prems"(3) by simp
      then have fpeq: "?fp = fp\<lparr> fpos := p + length ?B \<rparr>" by simp
      have le: "p + length ?B \<le> length ?c" using True "1.prems"(3) by simp
      have mm: "int (length ?B) \<le> m" using room by simp
      show ?thesis
        unfolding res scan_result.case
        using fpeq le B tail mm by (intro conjI) simp_all
    next
      case nf: False
      then have rec: "nalu_scan ?fp ?B m info2 = Some res" using step "1.prems"(1) by simp
      have w: "(word_of_int (uint ?b) :: byte) = ?b" by simp
      have IH: "case res of
          AtEof fp' Buf' \<Rightarrow>
            fp' = ?fp\<lparr> fpos := length (contents ?fp), eof := True \<rparr> \<and>
            Buf' = drop p (contents ?fp) @ [0xff] \<and> int (length Buf') \<le> m
        | Found fp' Buf' info2 info3 \<Rightarrow>
            fp' = ?fp\<lparr> fpos := p + length Buf' \<rparr> \<and> p + length Buf' \<le> length (contents ?fp) \<and>
            Buf' = take (length Buf') (drop p (contents ?fp)) \<and> length ?B < length Buf' \<and>
            int (length Buf') \<le> m \<and>
            (if info3 = 1 then drop (length Buf' - 4) Buf' = [0, 0, 0, 1]
             else info2 = 1 \<and> drop (length Buf' - 3) Buf' = [0, 0, 1])"
      proof -
        have rec': "nalu_scan ?fp ?W m info2 = Some res" using rec by simp
        note ih = "1.IH"[OF ne room refl g[symmetric] refl refl info3_def info2_def nf rec',
            unfolded W]
        have cc: "contents ?fp = contents fp" by simp
        show ?thesis
        proof (rule ih)
          show "\<not> eof ?fp" using "1.prems"(2) by simp
          show "fpos ?fp = p + length ?B" using "1.prems"(3) by simp
          show "fpos ?fp \<le> length (contents ?fp)" using True by simp
          show "?B = take (length ?B) (drop p (contents ?fp))" unfolding cc by (rule B)
          show "3 \<le> length ?B" using "1.prems"(6) by simp
        qed
      qed
      show ?thesis
      proof (cases res)
        case (AtEof fp' Buf')
        with IH show ?thesis by auto
      next
        case (Found fp' Buf' i2' i3')
        with IH show ?thesis by auto
      qed
    qed
  qed
qed

lemma short_cases:
  assumes "ys \<noteq> []" "length ys < 4"
  shows "(\<exists>a. ys = [a]) \<or> (\<exists>a b. ys = [a, b]) \<or> (\<exists>a b c. ys = [a, b, c])"
proof -
  from assms have "0 < length ys" by simp
  with assms(2) have "length ys = 1 \<or> length ys = 2 \<or> length ys = 3"
    by linarith
  then show ?thesis
    by (auto simp: length_Suc_conv eval_nat_numeral)
qed

lemma no_overlap_3_3:
  assumes "xs = [0, 0, 1] @ ys" "ys \<noteq> []" "drop (length xs - 3) xs = [0, 0, 1 :: byte]"
  shows "3 \<le> length ys"
proof (rule ccontr)
  assume "\<not> 3 \<le> length ys"
  then have "length ys < 4" "length ys \<noteq> 3" by simp_all
  from short_cases[OF assms(2) this(1)] this(2) assms(1,3) show False by auto
qed

lemma no_overlap_3_4:
  assumes "xs = [0, 0, 1] @ ys" "ys \<noteq> []" "drop (length xs - 4) xs = [0, 0, 0, 1 :: byte]"
  shows "4 \<le> length ys"
proof (rule ccontr)
  assume "\<not> 4 \<le> length ys"
  then have "length ys < 4" by simp
  from short_cases[OF assms(2) this] assms(1,3) show False by auto
qed

lemma no_overlap_4_3:
  assumes "xs = [0, 0, 0, 1] @ ys" "ys \<noteq> []" "drop (length xs - 3) xs = [0, 0, 1 :: byte]"
  shows "3 \<le> length ys"
proof (rule ccontr)
  assume "\<not> 3 \<le> length ys"
  then have "length ys < 4" "length ys \<noteq> 3" by simp_all
  from short_cases[OF assms(2) this(1)] this(2) assms(1,3) show False by auto
qed

lemma no_overlap_4_4:
  assumes "xs = [0, 0, 0, 1] @ ys" "ys \<noteq> []" "drop (length xs - 4) xs = [0, 0, 0, 1 :: byte]"
  shows "4 \<le> length ys"
proof (rule ccontr)
  assume "\<not> 4 \<le> length ys"
  then have "length ys < 4" by simp
  from short_cases[OF assms(2) this] assms(1,3) show False by auto
qed

lemma no_overlap:
  assumes sc: "Buf = [0, 0, 1] \<or> Buf = [0, 0, 0, 1 :: byte]"
    and pre: "take (length Buf) B = Buf" and longer: "length Buf < length B"
    and k: "k = 3 \<and> drop (length B - 3) B = [0, 0, 1] \<or> k = 4 \<and> drop (length B - 4) B = [0, 0, 0, 1]"
  shows "length Buf + k \<le> length B"
proof -
  define ys where "ys = drop (length Buf) B"
  have B: "B = Buf @ ys" using pre by (metis append_take_drop_id ys_def)
  have ne: "ys \<noteq> []" using longer by (simp add: ys_def)
  have "k \<le> length ys"
    using sc k no_overlap_3_3[of B ys] no_overlap_3_4[of B ys] no_overlap_4_3[of B ys]
      no_overlap_4_4[of B ys] B ne
    by (elim disjE conjE) simp_all
  then show ?thesis using B by simp
qed

lemma drop_take_tail:
  assumes "k \<le> n" "p + n \<le> length c"
  shows "drop (n - k) (take n (drop p c)) = take k (drop (p + (n - k)) c)"
  using assms by (simp add: drop_take add.commute)

lemma hdr_ok_nalu_header: "hdr_ok (nalu_header x)"
  by (simp add: hdr_ok_def nalu_header_def)

lemma nalu_header_fields:
  "startcodeprefix_len (nalu_header x) = startcodeprefix_len x"
  "len (nalu_header x) = len x" "max_size (nalu_header x) = max_size x"
  "buf (nalu_header x) = buf x"
  by (simp_all add: nalu_header_def)

text \<open>The end of GetAnnexbNALU, for a buffer that holds exactly the start code read at p.\<close>

lemma nalu_complete_spec:
  assumes res: "nalu_complete fp nalu Buf = Some (r, fp', n')"
    and ne: "\<not> eof fp" and pos: "fpos fp = p + length Buf"
    and inb: "fpos fp \<le> length (contents fp)"
    and B: "Buf = take (length Buf) (drop p (contents fp))"
    and sc: "Buf = [0, 0, 1] \<or> Buf = [0, 0, 0, 1]"
    and pl: "startcodeprefix_len nalu = int (length Buf)"
  shows "contents fp' = contents fp \<and> int (length Buf) \<le> r \<and> fpos fp' = p + nat r \<and>
         p + nat r \<le> length (contents fp) \<and> r \<le> max_size nalu \<and>
         ((eof fp' \<and> p + nat r = length (contents fp)) \<or>
          (\<not> eof fp' \<and> annexb_valid (drop (p + nat r) (contents fp)))) \<and>
         hdr_ok n' \<and> startcodeprefix_len n' = startcodeprefix_len nalu \<and>
         max_size n' = max_size nalu \<and> length (buf n') = length (buf nalu) \<and>
         len n' = (r - int (length Buf)) mod 2 ^ 32 \<and>
         take (nat (len n')) (buf n') = take (nat (len n')) (drop (p + length Buf) (contents fp))"
proof -
  let ?c = "contents fp"
  have l3: "3 \<le> length Buf" using sc by auto
  from res obtain sr where sr: "nalu_scan fp Buf (max_size nalu) 0 = Some sr"
    by (auto simp: nalu_complete_def split: option.splits)
  note spec = nalu_scan_spec[OF sr ne pos inb B l3]
  show ?thesis
  proof (cases sr)
    case (AtEof f1 B1)
    with spec have f1: "f1 = fp\<lparr> fpos := length ?c, eof := True \<rparr>"
      and B1: "B1 = drop p ?c @ [0xff]" and m1: "int (length B1) \<le> max_size nalu"
      by auto
    define l where "l = ((int (length B1) - 1) - startcodeprefix_len nalu) mod 2 ^ 32"
    from res sr AtEof obtain b where
      cp: "memcpy (buf nalu) (drop (nat (startcodeprefix_len nalu)) B1) l = Some b" and
      r: "r = int (length B1) - 1" and fp': "fp' = f1" and
      n': "n' = nalu_header (nalu\<lparr> len := l, buf := b \<rparr>)"
      by (auto simp: nalu_complete_def Let_def l_def split: option.splits)
    have rlen: "r = int (length ?c - p)" using r B1 by simp
    have ple: "p \<le> length ?c" using pos inb by simp
    have rge: "int (length Buf) \<le> r" using rlen pos inb by simp
    from cp have b: "b = take (nat l) (drop (nat (startcodeprefix_len nalu)) B1) @ drop (nat l) (buf nalu)"
      and lb: "nat l \<le> length (buf nalu)" and ls: "nat l \<le> length (drop (nat (startcodeprefix_len nalu)) B1)"
      and l0: "0 \<le> l"
      by (auto simp: memcpy_def split: if_splits)
    have lenb: "length b = length (buf nalu)" using b lb ls by simp
    have src: "drop (nat (startcodeprefix_len nalu)) B1 = drop (p + length Buf) ?c @ [0xff]"
      using pl B1 pos inb by (simp add: add.commute)
    have lval: "l = (r - int (length Buf)) mod 2 ^ 32" using l_def r pl by simp
    have lle: "l \<le> r - int (length Buf)"
      unfolding lval using rge by (intro zmod_le_nonneg_dividend) simp
    have "nat l \<le> length (drop (p + length Buf) ?c)"
      using lle rlen pos inb l0 by simp
    then have tk: "take (nat l) b = take (nat l) (drop (p + length Buf) ?c)"
      using b ls src by simp
    have rnat: "nat r = length ?c - p" using rlen by simp
    have c1: "contents fp' = contents fp" using fp' f1 by simp
    have c3: "fpos fp' = p + nat r" using fp' f1 rnat ple by simp
    have c4: "p + nat r \<le> length (contents fp)" using rnat ple by simp
    have c5: "r \<le> max_size nalu" using r m1 by simp
    have c6: "(eof fp' \<and> p + nat r = length (contents fp)) \<or>
          (\<not> eof fp' \<and> annexb_valid (drop (p + nat r) (contents fp)))"
      using fp' f1 rnat ple by simp
    have c7: "hdr_ok n'" using n' hdr_ok_nalu_header by simp
    have c8: "startcodeprefix_len n' = startcodeprefix_len nalu" using n' by (simp add: nalu_header_fields)
    have c9: "max_size n' = max_size nalu" using n' by (simp add: nalu_header_fields)
    have c10: "length (buf n') = length (buf nalu)" using n' lenb by (simp add: nalu_header_fields)
    have ln: "len n' = l" using n' by (simp add: nalu_header_fields)
    have c11: "len n' = (r - int (length Buf)) mod 2 ^ 32" using ln lval by simp
    have c12: "take (nat (len n')) (buf n') = take (nat (len n')) (drop (p + length Buf) (contents fp))"
      using n' tk ln by (simp add: nalu_header_fields)
    show ?thesis
      by (intro conjI; fact c1 rge c3 c4 c5 c6 c7 c8 c9 c10 c11 c12)
  next
    case (Found f1 B1 i2 i3)
    with spec have f1: "f1 = fp\<lparr> fpos := p + length B1 \<rparr>"
      and le1: "p + length B1 \<le> length ?c"
      and B1: "B1 = take (length B1) (drop p ?c)" and lt: "length Buf < length B1"
      and m1: "int (length B1) \<le> max_size nalu"
      and tail: "if i3 = 1 then drop (length B1 - 4) B1 = [0, 0, 0, 1]
         else i2 = 1 \<and> drop (length B1 - 3) B1 = [0, 0, 1]"
      by auto
    define k where "k = (if i3 = 1 then 4 else 3 :: nat)"
    have kk: "k = 3 \<and> drop (length B1 - 3) B1 = [0, 0, 1] \<or> k = 4 \<and> drop (length B1 - 4) B1 = [0, 0, 0, 1]"
      using tail by (auto simp: k_def split: if_splits)
    have pre: "take (length Buf) B1 = Buf"
    proof -
      have "take (length Buf) B1 = take (length Buf) (take (length B1) (drop p ?c))"
        using B1 by simp
      also have "\<dots> = take (length Buf) (drop p ?c)" using lt by (simp add: min_def)
      finally show ?thesis using B by simp
    qed
    have room: "length Buf + k \<le> length B1" by (rule no_overlap[OF sc pre lt kk])
    have k34: "k = 3 \<or> k = 4" by (simp add: k_def)
    have rew: "(if i3 = 1 then - 4 else - 3 :: int) = - int k" by (simp add: k_def)
    have sk: "fseek_cur f1 (- int k) = (0, fp\<lparr> fpos := p + length B1 - k, eof := False \<rparr>)"
      using f1 room by (simp add: fseek_cur_def nat_diff_distrib' of_nat_diff)
    define l where "l = ((int (length B1) - int k) - startcodeprefix_len nalu) mod 2 ^ 32"
    from res sr Found obtain b where
      cp: "memcpy (buf nalu) (drop (nat (startcodeprefix_len nalu)) B1) l = Some b" and
      r: "r = int (length B1) - int k" and fp': "fp' = fp\<lparr> fpos := p + length B1 - k, eof := False \<rparr>" and
      n': "n' = nalu_header (nalu\<lparr> len := l, buf := b \<rparr>)"
      by (auto simp: nalu_complete_def Let_def rew sk l_def split: option.splits)
    have rnat: "nat r = length B1 - k" using r room by simp
    have rge: "int (length Buf) \<le> r" using r room by simp
    from cp have b: "b = take (nat l) (drop (nat (startcodeprefix_len nalu)) B1) @ drop (nat l) (buf nalu)"
      and lb: "nat l \<le> length (buf nalu)" and ls: "nat l \<le> length (drop (nat (startcodeprefix_len nalu)) B1)"
      and l0: "0 \<le> l"
      by (auto simp: memcpy_def split: if_splits)
    have lenb: "length b = length (buf nalu)" using b lb ls by simp
    have lval: "l = (r - int (length Buf)) mod 2 ^ 32" using l_def r pl by simp
    have lle: "l \<le> r - int (length Buf)"
      unfolding lval using rge by (intro zmod_le_nonneg_dividend) simp
    have src: "drop (nat (startcodeprefix_len nalu)) B1 = take (length B1 - length Buf) (drop (p + length Buf) ?c)"
    proof -
      have "drop (length Buf) B1 = drop (length Buf) (take (length B1) (drop p ?c))"
        using B1 by simp
      also have "\<dots> = take (length B1 - length Buf) (drop (p + length Buf) ?c)"
        by (simp add: drop_take add.commute)
      finally show ?thesis using pl by simp
    qed
    have nl: "nat l \<le> length B1 - length Buf" using lle r l0 room by linarith
    have "take (nat l) b = take (nat l) (drop (nat (startcodeprefix_len nalu)) B1)"
      using b ls by simp
    also have "\<dots> = take (nat l) (take (length B1 - length Buf) (drop (p + length Buf) ?c))"
      by (simp only: src)
    also have "\<dots> = take (nat l) (drop (p + length Buf) ?c)"
      using nl by (simp add: min_def)
    finally have tk: "take (nat l) b = take (nat l) (drop (p + length Buf) ?c)" .
    have valid: "annexb_valid (drop (p + nat r) ?c)"
    proof -
      have kle: "k \<le> length B1" using room by simp
      have "drop (length B1 - k) B1 = drop (length B1 - k) (take (length B1) (drop p ?c))"
        using B1 by simp
      also have "\<dots> = take k (drop (p + (length B1 - k)) ?c)"
        by (rule drop_take_tail[OF kle le1])
      finally have "take k (drop (p + nat r) ?c) = drop (length B1 - k) B1" using rnat by simp
      then show ?thesis using kk by (auto simp: annexb_valid_def)
    qed
    have fpp: "fpos fp' = p + nat r" using fp' rnat room by simp
    have ple: "p + nat r \<le> length ?c" using rnat le1 by simp
    have rmax: "r \<le> max_size nalu" using r m1 by simp
    have c1: "contents fp' = contents fp" using fp' by simp
    have c6: "(eof fp' \<and> p + nat r = length (contents fp)) \<or>
          (\<not> eof fp' \<and> annexb_valid (drop (p + nat r) (contents fp)))"
      using fp' valid by simp
    have c7: "hdr_ok n'" using n' hdr_ok_nalu_header by simp
    have c8: "startcodeprefix_len n' = startcodeprefix_len nalu" using n' by (simp add: nalu_header_fields)
    have c9: "max_size n' = max_size nalu" using n' by (simp add: nalu_header_fields)
    have c10: "length (buf n') = length (buf nalu)" using n' lenb by (simp add: nalu_header_fields)
    have ln: "len n' = l" using n' by (simp add: nalu_header_fields)
    have c11: "len n' = (r - int (length Buf)) mod 2 ^ 32" using ln lval by simp
    have c12: "take (nat (len n')) (buf n') = take (nat (len n')) (drop (p + length Buf) (contents fp))"
      using n' tk ln by (simp add: nalu_header_fields)
    show ?thesis
      by (intro conjI; fact c1 rge fpp ple rmax c6 c7 c8 c9 c10 c11 c12)
  qed
qed

lemma fread_full:
  assumes "fread fp n = (bs, fp1)" "length bs = n" "0 < n"
  shows "bs = take n (drop (fpos fp) (contents fp)) \<and> fp1 = fp\<lparr> fpos := fpos fp + n \<rparr> \<and>
         fpos fp + n \<le> length (contents fp)"
  using assms by (auto simp: fread_def Let_def min_def split: if_splits)

lemma fread_short:
  assumes "fread fp n = (bs, fp1)" "length bs \<noteq> n"
  shows "eof fp1 \<and> contents fp1 = contents fp"
  using assms by (auto simp: fread_def Let_def min_def split: if_splits)

lemma nalu_complete_hdr_ok:
  "nalu_complete fp nalu Buf = Some (r, fp', n') \<Longrightarrow>
     hdr_ok n' \<and> max_size n' = max_size nalu \<and> length (buf n') = length (buf nalu) \<and>
     startcodeprefix_len n' = startcodeprefix_len nalu"
  by (auto simp: nalu_complete_def Let_def hdr_ok_nalu_header nalu_header_fields memcpy_def
           split: option.splits scan_result.splits prod.splits if_splits)

text \<open>The ways GetAnnexbNALU returns.\<close>

lemma GetAnnexbNALU_eq:
  assumes big: "\<not> max_size nalu < 4"
  obtains
    (short) fp1 where "GetAnnexbNALU fp nalu = Some (0, fp1, nalu\<lparr> startcodeprefix_len := 3 \<rparr>)"
      "eof fp1" "contents fp1 = contents fp"
      "\<not> annexb_valid (drop (fpos fp) (contents fp))"
  | (nocode) "GetAnnexbNALU fp nalu =
        Some (- 1, fp\<lparr> fpos := fpos fp + 4 \<rparr>, nalu\<lparr> startcodeprefix_len := 3 \<rparr>)"
      "fpos fp + 4 \<le> length (contents fp)"
      "\<not> annexb_valid (drop (fpos fp) (contents fp))"
  | (code) Buf where "Buf = [0, 0, 1] \<or> Buf = [0, 0, 0, 1]"
      "Buf = take (length Buf) (drop (fpos fp) (contents fp))"
      "fpos fp + length Buf \<le> length (contents fp)"
      "GetAnnexbNALU fp nalu =
         nalu_complete (fp\<lparr> fpos := fpos fp + length Buf \<rparr>)
           (nalu\<lparr> startcodeprefix_len := int (length Buf) \<rparr>) Buf"
proof -
  let ?n3 = "nalu\<lparr> startcodeprefix_len := 3 \<rparr>"
  let ?X = "drop (fpos fp) (contents fp)"
  obtain b3 fp1 where f3: "fread fp 3 = (b3, fp1)" by (cases "fread fp 3")
  show ?thesis
  proof (cases "length b3 = 3")
    case False
    then have "GetAnnexbNALU fp nalu = Some (0, fp1, ?n3)"
      using big f3 by (simp add: GetAnnexbNALU_def Let_def)
    moreover have "length ?X < 3" using f3 False by (auto simp: fread_def Let_def)
    then have "\<not> annexb_valid ?X"
      by (auto simp: annexb_valid_def dest: arg_cong[where f = length])
    ultimately show ?thesis using fread_short[OF f3 False] short by simp
  next
    case l3: True
    from fread_full[OF f3 l3] have b3: "b3 = take 3 ?X" and fp1: "fp1 = fp\<lparr> fpos := fpos fp + 3 \<rparr>"
      and in3: "fpos fp + 3 \<le> length (contents fp)" by simp_all
    show ?thesis
    proof (cases "FindStartCode2 b3 = 1")
      case True
      then have eq: "b3 = [0, 0, 1]" using FindStartCode2_iff[OF l3] by simp
      have "GetAnnexbNALU fp nalu = nalu_complete fp1 (?n3\<lparr> startcodeprefix_len := 3 \<rparr>) b3"
        using big f3 l3 True by (simp add: GetAnnexbNALU_def Let_def)
      then have "GetAnnexbNALU fp nalu = nalu_complete (fp\<lparr> fpos := fpos fp + length b3 \<rparr>)
         (nalu\<lparr> startcodeprefix_len := int (length b3) \<rparr>) b3"
        using fp1 l3 by simp
      moreover have "b3 = take (length b3) ?X" using b3 l3 by simp
      ultimately show ?thesis using code[of b3] eq in3 l3 by simp
    next
      case n2: False
      obtain b1 fp2 where f1: "fread fp1 1 = (b1, fp2)" by (cases "fread fp1 1")
      show ?thesis
      proof (cases "length b1 = 1")
        case False
        then have "GetAnnexbNALU fp nalu = Some (0, fp2, ?n3)"
          using big f3 l3 n2 f1 by (simp add: GetAnnexbNALU_def Let_def)
        moreover have "length ?X < 4" using f1 False fp1 by (auto simp: fread_def Let_def)
        then have "take 4 ?X \<noteq> [0, 0, 0, 1]"
          by (auto dest: arg_cong[where f = length])
        then have "\<not> annexb_valid ?X"
          using n2 FindStartCode2_iff[OF l3] b3 by (simp add: annexb_valid_def)
        ultimately show ?thesis using fread_short[OF f1 False] short fp1 by simp
      next
        case l1: True
        from fread_full[OF f1 l1] fp1 have b1: "b1 = take 1 (drop 3 ?X)"
          and fp2: "fp2 = fp\<lparr> fpos := fpos fp + 4 \<rparr>"
          and in4: "fpos fp + 4 \<le> length (contents fp)"
          by (simp_all add: add.commute)
        have b4: "b3 @ b1 = take 4 ?X"
          using b3 b1 take_add[of 3 1 ?X] by simp
        have l4: "length (b3 @ b1) = 4" using l3 l1 by simp
        show ?thesis
        proof (cases "FindStartCode3 (b3 @ b1) = 1")
          case False
          then have "GetAnnexbNALU fp nalu = Some (- 1, fp2, ?n3)"
            using big f3 l3 n2 f1 l1 by (simp add: GetAnnexbNALU_def Let_def)
          moreover have "\<not> annexb_valid ?X"
            using False n2 FindStartCode3_iff[OF l4] FindStartCode2_iff[OF l3] b3 b4
            by (simp add: annexb_valid_def)
          ultimately show ?thesis using nocode fp2 in4 by simp
        next
          case True
          then have eq: "b3 @ b1 = [0, 0, 0, 1]" using FindStartCode3_iff[OF l4] by simp
          have "GetAnnexbNALU fp nalu = nalu_complete fp2 (?n3\<lparr> startcodeprefix_len := 4 \<rparr>) (b3 @ b1)"
            using big f3 l3 n2 f1 l1 True by (simp add: GetAnnexbNALU_def Let_def)
          then have "GetAnnexbNALU fp nalu = nalu_complete (fp\<lparr> fpos := fpos fp + length (b3 @ b1) \<rparr>)
             (nalu\<lparr> startcodeprefix_len := int (length (b3 @ b1)) \<rparr>) (b3 @ b1)"
            using fp2 l4 by simp
          moreover have "b3 @ b1 = take (length (b3 @ b1)) ?X" using b4 l4 by simp
          ultimately show ?thesis using code[of "b3 @ b1"] eq in4 l4 by simp
        qed
      qed
    qed
  qed
qed

lemma GetAnnexbNALU_cases:
  assumes res: "GetAnnexbNALU fp nalu = Some (r, fp', n')"
  obtains
    (short) "r = 0" "eof fp'" "contents fp' = contents fp" "n' = nalu\<lparr> startcodeprefix_len := 3 \<rparr>"
      "\<not> annexb_valid (drop (fpos fp) (contents fp))"
  | (nocode) "r = - 1" "fp' = fp\<lparr> fpos := fpos fp + 4 \<rparr>" "fpos fp + 4 \<le> length (contents fp)"
      "n' = nalu\<lparr> startcodeprefix_len := 3 \<rparr>"
      "\<not> annexb_valid (drop (fpos fp) (contents fp))"
  | (code) Buf where "Buf = [0, 0, 1] \<or> Buf = [0, 0, 0, 1]"
      "Buf = take (length Buf) (drop (fpos fp) (contents fp))"
      "fpos fp + length Buf \<le> length (contents fp)"
      "nalu_complete (fp\<lparr> fpos := fpos fp + length Buf \<rparr>)
         (nalu\<lparr> startcodeprefix_len := int (length Buf) \<rparr>) Buf = Some (r, fp', n')"
proof -
  have big: "\<not> max_size nalu < 4" using res by (auto simp: GetAnnexbNALU_def split: if_splits)
  show ?thesis
  proof (cases rule: GetAnnexbNALU_eq[OF big, of fp, case_names short nocode code])
    case (short fp1)
    with res show ?thesis using that(1) by simp
  next
    case nocode
    with res show ?thesis using that(2) by simp
  next
    case (code Buf)
    with res show ?thesis using that(3)[of Buf] by simp
  qed
qed

lemma GetAnnexbNALU_progress:
  assumes res: "GetAnnexbNALU fp nalu = Some (r, fp', n')" and ne: "\<not> eof fp"
  shows "contents fp' = contents fp \<and>
         (eof fp' \<or> (fpos fp < fpos fp' \<and> fpos fp' \<le> length (contents fp)))"
  using res
proof (cases rule: GetAnnexbNALU_cases)
  case short
  then show ?thesis by simp
next
  case nocode
  then show ?thesis by simp
next
  case (code Buf)
  let ?fp = "fp\<lparr> fpos := fpos fp + length Buf \<rparr>"
  let ?nl = "nalu\<lparr> startcodeprefix_len := int (length Buf) \<rparr>"
  have pre: "\<not> eof ?fp" "fpos ?fp = fpos fp + length Buf" "fpos ?fp \<le> length (contents ?fp)"
    "Buf = take (length Buf) (drop (fpos fp) (contents ?fp))"
    "startcodeprefix_len ?nl = int (length Buf)"
    using ne code(2,3) by simp_all
  note spec = nalu_complete_spec[OF code(4) pre(1-4) code(1) pre(5), simplified]
  have "0 < length Buf" using code(1) by auto
  with spec have "contents fp' = contents fp" "0 < r" "fpos fp' = fpos fp + nat r"
    "fpos fp + nat r \<le> length (contents fp)" by linarith+
  then show ?thesis by simp
qed

lemma GetAnnexbNALU_hdr_ok:
  assumes res: "GetAnnexbNALU fp nalu = Some (r, fp', n')" and ne: "\<not> eof fp" and ok: "hdr_ok nalu"
  shows "hdr_ok n' \<and> max_size n' = max_size nalu \<and> length (buf n') = length (buf nalu)"
  using res
proof (cases rule: GetAnnexbNALU_cases)
  case short
  then show ?thesis using ok by (simp add: hdr_ok_def)
next
  case nocode
  then show ?thesis using ok by (simp add: hdr_ok_def)
next
  case (code Buf)
  from nalu_complete_hdr_ok[OF code(4)] show ?thesis by simp
qed


termination h264_loop
proof (relation "measure (\<lambda>(fp, n, offs, num).
          if eof fp then 0 else 1 + (length (contents fp) - fpos fp))", goal_cases)
  case 1
  show ?case by simp
next
  case (2 fp n offs num x2 data_lenth y fp' n')
  then have res: "GetAnnexbNALU fp n = Some (data_lenth, fp', n')" and ne: "\<not> eof fp"
    by (simp_all add: feof_def)
  from GetAnnexbNALU_progress[OF res ne] show ?case using ne by auto
qed

declare h264_loop.simps [simp del]




lemma sint_and_mask8:
  fixes b :: byte
  assumes "0 \<le> m" "m < 256"
  shows "sint b AND m = uint b AND m"
proof (rule bit_eqI)
  fix n
  have "bit m n \<Longrightarrow> n < 8"
  proof (rule ccontr)
    assume b: "bit m n" and "\<not> n < 8"
    then have "8 \<le> n" by simp
    then have "(2::int) ^ 8 \<le> 2 ^ n" by (intro power_increasing) simp_all
    moreover have "2 ^ n \<le> m" using b assms(1)
      by (simp add: bit_iff_odd) (metis b bit_int_def  assms(1) div_pos_pos_trivial even_zero linorder_not_le)
    ultimately show False using assms(2) by simp
  qed
  then show "bit (sint b AND m) n = bit (uint b AND m) n"
    by (auto simp: bit_and_iff bit_sint_iff bit_uint_iff)
qed


lemmas h264_eval = simplest_h264_parser_def h264_loop.simps GetAnnexbNALU_def nalu_complete_def
  nalu_scan.simps fopen_def calloc_NALU_def fread_def fgetc_def feof_def fseek_cur_def
  FindStartCode2_def FindStartCode3_def memcpy_def nalu_header_def Let_def
  nalu_payload_def nalu_idc_str_def nalu_type_str_def


lemma h264_loop_rows:
  assumes "h264_loop fp n offs num = Some rows" and "hdr_ok n"
  shows "\<forall>row \<in> set rows. hdr_ok (unit row) \<and> length (buf (unit row)) = length (buf n) \<and>
           idc_str row = nalu_idc_str (nal_reference_idc (unit row)) \<and>
           type_str row = nalu_type_str (nal_unit_type (unit row)) \<and>
           row_len row = len (unit row)"
  using assms
proof (induction fp n offs num arbitrary: rows rule: h264_loop.induct)
  case (1 fp n offs num)
  show ?case
  proof (cases "feof fp")
    case True
    then have "rows = []" using "1.prems"(1) by (subst (asm) h264_loop.simps) simp
    then show ?thesis by simp
  next
    case False
    then have ne: "\<not> eof fp" by (simp add: feof_def)
    from "1.prems"(1) False obtain r fp' n' rest where
      res: "GetAnnexbNALU fp n = Some (r, fp', n')" and
      rec: "h264_loop fp' n' (offs + r) (num + 1) = Some rest" and
      rows: "rows = \<lparr> nal_num = num, data_offset = offs,
                          idc_str = nalu_idc_str (nal_reference_idc n'),
                          type_str = nalu_type_str (nal_unit_type n'),
                          row_len = len n', unit = n' \<rparr> # rest"
      by (subst (asm) h264_loop.simps) (auto split: option.splits)
    from GetAnnexbNALU_hdr_ok[OF res ne "1.prems"(2)]
    have ok: "hdr_ok n'" and lb: "length (buf n') = length (buf n)" by simp_all
    from "1.IH"[OF False res refl refl rec ok] lb rows ok show ?thesis by simp
  qed
qed

lemma hdr_ok_calloc: "hdr_ok (calloc_NALU 100000)"
  by (simp add: hdr_ok_def calloc_NALU_def)

text \<open>
  C3 (amended). For every row of the parser whose unit has a non-empty payload, with \<open>b\<close> the
  first payload byte: \<^verbatim>\<open>forbidden_bit\<close> is non-zero iff \<open>b & 0x80\<close> is, \<^verbatim>\<open>nal_unit_type\<close>
  is \<open>b & 0x1F\<close>, and the field \<^verbatim>\<open>nal_reference_idc\<close> holds \<open>b & 0x60\<close> without the shift
  (one of 0, 32, 64, 96). The shift by 5 is applied where the row is printed: the priority
  name of the row is the one selected by \<open>(b & 0x60) >> 5\<close>.
\<close>

theorem simplest_h264_parser_header_fields:
  assumes "simplest_h264_parser bytes = Some rows" and "row \<in> set rows"
    and "0 < len (unit row)"
  shows "(forbidden_bit (unit row) \<noteq> 0) = (uint (hd (nalu_payload (unit row))) AND 0x80 \<noteq> 0) \<and>
         nal_reference_idc (unit row) = uint (hd (nalu_payload (unit row))) AND 0x60 \<and>
         idc_str row = nalu_idc_str (uint (hd (nalu_payload (unit row))) AND 0x60) \<and>
         drop_bit 5 (nal_reference_idc (unit row))
           = drop_bit 5 (uint (hd (nalu_payload (unit row))) AND 0x60) \<and>
         nal_unit_type (unit row) = uint (hd (nalu_payload (unit row))) AND 0x1f"
proof -
  from h264_loop_rows[OF assms(1)[unfolded simplest_h264_parser_def] hdr_ok_calloc] assms(2)
  have ok: "hdr_ok (unit row)" and lb: "length (buf (unit row)) = 100000"
    and idc: "idc_str row = nalu_idc_str (nal_reference_idc (unit row))"
    by (simp_all add: calloc_NALU_def)
  have "buf (unit row) \<noteq> []" using lb by auto
  then have h: "hd (nalu_payload (unit row)) = buf (unit row) ! 0"
    using assms(3) by (simp add: nalu_payload_def hd_conv_nth)
  show ?thesis
    using ok idc unfolding h hdr_ok_def
    by (simp add: sint_and_mask8)
qed

theorem simplest_h264_parser_header_fields_witness:
  "map_option (map (\<lambda>row. (nalu_payload (unit row), forbidden_bit (unit row),
        nal_reference_idc (unit row), idc_str row, nal_unit_type (unit row))))
     (simplest_h264_parser [0, 0, 0, 1, 0xe5, 0x88])
   = Some [([0xe5, 0x88], 0x80, 0x60, ''HIGHEST'', 5)] \<and>
   (\<exists>rows row. simplest_h264_parser [0, 0, 0, 1, 0xe5, 0x88] = Some rows \<and> row \<in> set rows \<and>
      0 < len (unit row) \<and>
      nal_reference_idc (unit row) = uint (hd (nalu_payload (unit row))) AND 0x60 \<and>
      nal_unit_type (unit row) = uint (hd (nalu_payload (unit row))) AND 0x1f)"
proof -
  have ev: "map_option (map (\<lambda>row. (nalu_payload (unit row), forbidden_bit (unit row),
        nal_reference_idc (unit row), idc_str row, nal_unit_type (unit row), len (unit row))))
     (simplest_h264_parser [0, 0, 0, 1, 0xe5, 0x88])
   = Some [([0xe5, 0x88], 0x80, 0x60, ''HIGHEST'', 5, 2)]"
    by (simp add: h264_eval)
  then obtain rows where rows: "simplest_h264_parser [0, 0, 0, 1, 0xe5, 0x88] = Some rows"
    by (cases "simplest_h264_parser [0, 0, 0, 1, 0xe5, 0x88]") auto
  with ev obtain row where row: "rows = [row]" "len (unit row) = 2" by auto
  then have m: "row \<in> set rows" and l: "0 < len (unit row)" by simp_all
  from simplest_h264_parser_header_fields[OF rows m l] ev rows m l
  show ?thesis by auto
qed

text \<open>
  C3, as stated, fails: for the header byte \<open>0x67\<close> the field \<^verbatim>\<open>nal_reference_idc\<close> of the
  emitted unit is \<open>0x60 = 96\<close>, while \<open>(0x67 & 0x60) >> 5\<close> is 3.
\<close>

theorem simplest_h264_parser_idc_unshifted:
  "map_option (map (\<lambda>row. (nalu_payload (unit row), nal_reference_idc (unit row))))
     (simplest_h264_parser [0, 0, 1, 0x67, 0x42])
   = Some [([0x67, 0x42], 0x60)] \<and>
   drop_bit 5 (uint (0x67 :: byte) AND 0x60) = 3 \<and> (0x60 :: int) \<noteq> 3"
  by (simp add: h264_eval)









lemma length_concat_replicate: "length (concat (replicate k F)) = k * length F"
  by (induction k) simp_all

















section \<open>Properties of the FLV demuxer\<close>







text \<open>
  C8. The claim fails on the code. A file with the 9-byte header, one audio tag of two data
  bytes and the closing previous-tag-size has one tag; the loop prints two tag lines. In
  its second turn the read of the tag header finds no byte and leaves the header of the
  first tag in place, the \<^verbatim>\<open>fseek\<close> by \<open>-1\<close> clears the end-of-file indicator, and the
  line is printed before \<^verbatim>\<open>feof\<close> is tested; the test then does not stop the turn either,
  and the last byte of the file and \<^verbatim>\<open>EOF\<close> are taken as the data of a second tag.
\<close>

theorem simplest_flv_parser_extra_record:
  "map_option (\<lambda>(flv, tags). map (\<lambda>r. (tag_type r, tag_datasize r, tag_timestamp r, tag_body r)) tags)
     (simplest_flv_parser
        [0x46, 0x4c, 0x56, 0x01, 0x04, 0, 0, 0, 9,  0, 0, 0, 0,
         8, 0, 0, 2, 0, 0, 0, 0, 0, 0, 0,  0xaf, 0x01,  0, 0, 0, 0x0d])
   = Some [(8, 2, 0, AudioTag 0xaf [0x01]), (8, 2, 0, AudioTag 0x0d [0xff])]"
  by code_simp

section \<open>Properties of simplest_aac_parser\<close>

lemma adts_scan_at_sync:
  assumes "7 \<le> n" "6 \<le> length b" "uint (b ! 0) = 0xff" "uint (b ! 1) AND 0xf0 = 0xf0"
  shows "adts_scan b n = Some (Inr (b, n, adts_size (b ! 3) (b ! 4) (b ! 5)))"
  using assms by (subst adts_scan.simps) (auto simp add: rd_def)

lemma getADTSframe_at_frame:
  assumes wf: "adts_wf F" and n: "int (length F) \<le> n" and d: "length F \<le> length dat"
  shows "getADTSframe (Some (F @ rest)) n (Some dat) (Some sz)
         = Some (0, Some (F @ drop (length F) dat), Some (int (length F)))"
proof -
  from wf have l: "7 \<le> length F" and s0: "uint (F ! 0) = 0xff" and s1: "uint (F ! 1) AND 0xf0 = 0xf0"
    and sz: "adts_size (F ! 3) (F ! 4) (F ! 5) = int (length F)"
    by (simp_all add: adts_wf_def)
  have nth: "(F @ rest) ! i = F ! i" if "i < 7" for i using that l by (simp add: nth_append)
  have "adts_scan (F @ rest) n = Some (Inr (F @ rest, n, int (length F)))"
    using adts_scan_at_sync[of n "F @ rest"] n l s0 s1 sz by (simp add: nth)
  then show ?thesis using n d by (simp add: getADTSframe_def memcpy_def)
qed

lemma getADTSframe_need_more:
  assumes wf: "adts_wf F" and n: "7 \<le> n" "n < int (length F)" and b: "6 \<le> length b"
    and pre: "take 6 b = take 6 F"
  shows "getADTSframe (Some b) n (Some dat) (Some sz) = Some (1, Some dat, Some sz)"
proof -
  from wf have l: "7 \<le> length F" and s0: "uint (F ! 0) = 0xff" and s1: "uint (F ! 1) AND 0xf0 = 0xf0"
    and sz: "adts_size (F ! 3) (F ! 4) (F ! 5) = int (length F)"
    by (simp_all add: adts_wf_def)
  have nth: "b ! i = F ! i" if "i < 6" for i
  proof -
    have "b ! i = take 6 b ! i" using that by simp
    also have "\<dots> = take 6 F ! i" by (simp only: pre)
    also have "\<dots> = F ! i" using that by simp
    finally show ?thesis .
  qed
  have "adts_scan b n = Some (Inr (b, n, int (length F)))"
    using adts_scan_at_sync[of n b] n b s0 s1 sz by (simp add: nth)
  then show ?thesis using n by (simp add: getADTSframe_def)
qed

lemma getADTSframe_too_short:
  assumes "n < 7"
  shows "getADTSframe (Some b) n (Some dat) (Some sz) = Some (- 1, Some dat, Some sz)"
  using assms by (simp add: getADTSframe_def adts_scan.simps)

lemma aac_frames_step:
  assumes wf: "adts_wf F" and b: "drop i B = F @ rest" and d: "int (length F) \<le> d"
    and fr: "length F \<le> length fr"
  shows "aac_frames B i d fr sz n acc =
         aac_frames B (i + length F) (d - int (length F)) (F @ drop (length F) fr)
           (int (length F)) (n + 1)
           (acc @ [adts_line n (F @ drop (length F) fr) (int (length F))])"
  by (subst aac_frames.simps) (simp add: b getADTSframe_at_frame[OF wf d fr])

lemma aac_frames_run:
  assumes wf: "adts_wf F" and fr: "length fr = length fr0" "length F \<le> length fr0"
    and b: "drop i B = concat (replicate k F) @ rest"
    and d: "int (k * length F) \<le> d"
  shows "\<exists>fr' sz'. length fr' = length fr0 \<and>
          (0 < k \<longrightarrow> fr' = F @ drop (length F) fr \<and> sz' = int (length F)) \<and>
          (k = 0 \<longrightarrow> fr' = fr \<and> sz' = sz) \<and>
          aac_frames B i d fr sz n acc =
          aac_frames B (i + k * length F) (d - int (k * length F)) fr' sz' (n + int k)
            (acc @ map (\<lambda>j. adts_line (n + int j) (F @ drop (length F) fr) (int (length F))) [0..<k])"
  using fr b d
proof (induction k arbitrary: i d fr sz n acc)
  case 0
  then show ?case by simp
next
  case (Suc k)
  let ?L = "length F"
  let ?fr = "F @ drop ?L fr"
  have b1: "drop i B = F @ (concat (replicate k F) @ rest)" using Suc.prems(3) by simp
  have d1: "int ?L \<le> d" using Suc.prems(4) by (simp add: algebra_simps) (smt (verit) of_nat_0_le_iff mult_nonneg_nonneg)
  have f1: "?L \<le> length fr" using Suc.prems(1,2) by simp
  have step: "aac_frames B i d fr sz n acc =
         aac_frames B (i + ?L) (d - int ?L) ?fr (int ?L) (n + 1) (acc @ [adts_line n ?fr (int ?L)])"
    by (rule aac_frames_step[OF wf b1 d1 f1])
  have lfr: "length ?fr = length fr0" using Suc.prems(1,2) by simp
  have b2: "drop (i + ?L) B = concat (replicate k F) @ rest"
    using b1 by (metis add.commute append_eq_conv_conj drop_drop)
  have d2: "int (k * ?L) \<le> d - int ?L" using Suc.prems(4) by (simp add: algebra_simps)
  from Suc.IH[OF lfr Suc.prems(2) b2 d2, of "int ?L" "n + 1" "acc @ [adts_line n ?fr (int ?L)]"]
  obtain fr' sz' where ih: "length fr' = length fr0"
     "0 < k \<longrightarrow> fr' = F @ drop ?L ?fr \<and> sz' = int ?L"
     "k = 0 \<longrightarrow> fr' = ?fr \<and> sz' = int ?L"
     "aac_frames B (i + ?L) (d - int ?L) ?fr (int ?L) (n + 1) (acc @ [adts_line n ?fr (int ?L)]) =
      aac_frames B (i + ?L + k * ?L) (d - int ?L - int (k * ?L)) fr' sz' (n + 1 + int k)
        ((acc @ [adts_line n ?fr (int ?L)]) @
          map (\<lambda>j. adts_line (n + 1 + int j) (F @ drop ?L ?fr) (int ?L)) [0..<k])"
    by blast
  have idem: "F @ drop ?L ?fr = ?fr" by simp
  have fr'eq: "fr' = ?fr" "sz' = int ?L" using ih(2,3) idem by (cases k; simp)+
  have m: "[adts_line n ?fr (int ?L)] @ map (\<lambda>j. adts_line (n + 1 + int j) ?fr (int ?L)) [0..<k]
           = map (\<lambda>j. adts_line (n + int j) ?fr (int ?L)) [0..<Suc k]"
  proof -
    have "[0..<Suc k] = 0 # map Suc [0..<k]"
      by (simp add: upt_conv_Cons map_Suc_upt del: upt_Suc)
    then show ?thesis by (simp add: o_def algebra_simps del: upt_Suc)
  qed
  have "aac_frames B i d fr sz n acc =
      aac_frames B (i + Suc k * ?L) (d - int (Suc k * ?L)) ?fr (int ?L) (n + int (Suc k))
        (acc @ map (\<lambda>j. adts_line (n + int j) ?fr (int ?L)) [0..<Suc k])"
    unfolding step ih(4) fr'eq idem
    using m by (simp add: algebra_simps del: upt_Suc)
  then show ?case using lfr by (intro exI[of _ ?fr] exI[of _ "int ?L"]) (simp del: upt_Suc)
qed

lemma concat_replicate_Suc_end: "concat (replicate (Suc k) F) = concat (replicate k F) @ F"
  by (induction k) simp_all

text \<open>The inner loop over a buffer of k whole frames followed by fewer than 7 bytes.\<close>

lemma aac_frames_whole:
  assumes wf: "adts_wf F" and fr: "length F \<le> length fr0"
    and B: "B = concat (replicate k F) @ rest" and r: "length rest < 7"
  shows "\<exists>fr' sz'. aac_frames B 0 (int (length B)) fr0 0 0 [] =
           Some (- 1, k * length F, int (length rest), fr', sz', int k, frames_upto F fr0 k)"
proof -
  have b: "drop 0 B = concat (replicate k F) @ rest" using B by simp
  have d: "int (k * length F) \<le> int (length B)" using B by (simp add: length_concat_replicate)
  from aac_frames_run[OF wf refl fr b d, of 0 0 "[]"]
  obtain fr' sz' where run: "aac_frames B 0 (int (length B)) fr0 0 0 [] =
          aac_frames B (0 + k * length F) (int (length B) - int (k * length F)) fr' sz' (0 + int k)
            ([] @ frames_upto F fr0 k)"
    by auto
  have rem: "int (length B) - int (k * length F) = int (length rest)"
    using B by (simp add: length_concat_replicate)
  have "aac_frames B (k * length F) (int (length rest)) fr' sz' (int k) (frames_upto F fr0 k)
        = Some (- 1, k * length F, int (length rest), fr', sz', int k, frames_upto F fr0 k)"
    using r by (subst aac_frames.simps) (simp add: getADTSframe_too_short del: upt_Suc)
  then show ?thesis using run rem by (simp del: upt_Suc)
qed

lemma adts_frames_of_buffer_frames:
  assumes wf: "adts_wf F" and fr: "length F \<le> length fr0"
  shows "adts_frames_of_buffer fr0 (concat (replicate k F)) = Some (frames_upto F fr0 k)"
proof -
  from aac_frames_whole[OF wf fr, of "concat (replicate k F)" k "[]"]
  show ?thesis by (auto simp: adts_frames_of_buffer_def simp del: upt_Suc)
qed

text \<open>The first turn of the outer loop on a file of k + 1 frames, cut inside the last one.\<close>

lemma fread_first_chunk:
  assumes cut: "1048576 = k * length F + r" and r: "r < length F"
  shows "fread (fopen (concat (replicate (Suc k) F))) 1048576 =
           (concat (replicate k F) @ take r F,
            \<lparr> contents = concat (replicate (Suc k) F), fpos = 1048576, eof = False \<rparr>)"
proof -
  define fl where "fl = concat (replicate (Suc k) F)"
  have rr: "1048576 - k * length F = r" "k * length F \<le> 1048576" using cut by linarith+
  have tk: "take 1048576 fl = concat (replicate k F) @ take r F"
    unfolding fl_def concat_replicate_Suc_end by (simp add: length_concat_replicate rr)
  have len: "length fl = 1048576 + (length F - r)"
    unfolding fl_def using cut r by (simp add: length_concat_replicate)
  have "fread (fopen fl) 1048576 =
          (concat (replicate k F) @ take r F, \<lparr> contents = fl, fpos = 1048576, eof = False \<rparr>)"
    using cut r by (simp add: fread_def fopen_def Let_def tk len length_concat_replicate min_def)
  then show ?thesis unfolding fl_def .
qed

lemma fread_second_chunk:
  assumes cut: "1048576 = k * length F + r" and r: "r < length F" and n: "length F - r < n"
  shows "fread \<lparr> contents = concat (replicate (Suc k) F), fpos = 1048576, eof = False \<rparr> n =
           (drop r F,
            \<lparr> contents = concat (replicate (Suc k) F), fpos = 1048576 + (length F - r), eof = True \<rparr>)"
proof -
  define fl where "fl = concat (replicate (Suc k) F)"
  have rr: "1048576 - k * length F = r" "k * length F \<le> 1048576" using cut by linarith+
  have dr: "drop 1048576 fl = drop r F"
    unfolding fl_def concat_replicate_Suc_end by (simp add: length_concat_replicate rr)
  have "fread \<lparr> contents = fl, fpos = 1048576, eof = False \<rparr> n =
           (drop r F, \<lparr> contents = fl, fpos = 1048576 + (length F - r), eof = True \<rparr>)"
    using n by (simp add: fread_def Let_def dr)
  then show ?thesis unfolding fl_def .
qed

lemma frames_upto_bytes:
  assumes "length F \<le> length fr0"
  shows "map frame_bytes (frames_upto F fr0 k) = replicate k F"
  by (simp add: adts_line_def o_def map_replicate_const del: upt_Suc)

lemma aac_frames_part:
  assumes wf: "adts_wf F" and fr: "length F \<le> length fr0"
    and B: "B = concat (replicate k F) @ rest" and r: "7 \<le> length rest" "length rest < length F"
    and pre: "take 6 rest = take 6 F"
  shows "\<exists>fr' sz'. aac_frames B 0 (int (length B)) fr0 0 0 [] =
           Some (1, k * length F, int (length rest), fr', sz', int k, frames_upto F fr0 k)"
proof -
  have b: "drop 0 B = concat (replicate k F) @ rest" using B by simp
  have d: "int (k * length F) \<le> int (length B)" using B by (simp add: length_concat_replicate)
  from aac_frames_run[OF wf refl fr b d, of 0 0 "[]"]
  obtain fr' sz' where run: "aac_frames B 0 (int (length B)) fr0 0 0 [] =
          aac_frames B (0 + k * length F) (int (length B) - int (k * length F)) fr' sz' (0 + int k)
            ([] @ frames_upto F fr0 k)"
    by auto
  have rem: "int (length B) - int (k * length F) = int (length rest)"
    using B by (simp add: length_concat_replicate)
  have dr: "drop (k * length F) B = rest" using B by (simp add: length_concat_replicate)
  have g: "getADTSframe (Some rest) (int (length rest)) (Some fr') (Some sz') = Some (1, Some fr', Some sz')"
    by (rule getADTSframe_need_more[OF wf _ _ _ pre]) (use r in simp_all)
  have "aac_frames B (k * length F) (int (length rest)) fr' sz' (int k) (frames_upto F fr0 k)
        = Some (1, k * length F, int (length rest), fr', sz', int k, frames_upto F fr0 k)"
    by (subst aac_frames.simps) (simp add: dr g del: upt_Suc)
  then show ?thesis using run rem by (simp del: upt_Suc)
qed

text \<open>One turn of the outer loop, from what the inner loop returns.\<close>

lemma aac_turn_break:
  assumes "0 \<le> off" "off \<le> 1048576"
    and "fread ifile (nat (1048576 - off)) = (bs, ifile')"
    and "aac_frames (take (nat off) ab @ bs @ drop (nat off + length bs) ab) 0 (int (length bs))
           fr sz n [] = Some (- 1, i, d, fr', sz', n', frames)"
  shows "aac_turn \<lparr> aacbuffer = ab, aacframe = fr, offset = off, frame_sz = sz, cnt_aac = n \<rparr> ifile =
         Some (\<lparr> aacbuffer = take (nat off) ab @ bs @ drop (nat off + length bs) ab,
                 aacframe = fr', offset = off, frame_sz = sz', cnt_aac = n' \<rparr>, ifile', frames)"
  using assms by (simp add: aac_turn_def)

lemma aac_turn_keep:
  assumes "0 \<le> off" "off \<le> 1048576"
    and "fread ifile (nat (1048576 - off)) = (bs, ifile')"
    and "aac_frames (take (nat off) ab @ bs @ drop (nat off + length bs) ab) 0 (int (length bs))
           fr sz n [] = Some (1, i, d, fr', sz', n', frames)"
    and "memcpy (take (nat off) ab @ bs @ drop (nat off + length bs) ab)
           (drop i (take (nat off) ab @ bs @ drop (nat off + length bs) ab)) d = Some ab'"
  shows "aac_turn \<lparr> aacbuffer = ab, aacframe = fr, offset = off, frame_sz = sz, cnt_aac = n \<rparr> ifile =
         Some (\<lparr> aacbuffer = ab', aacframe = fr', offset = d, frame_sz = sz', cnt_aac = n' \<rparr>,
               ifile', frames)"
  using assms by (simp add: aac_turn_def)

text \<open>
  A file of k + 1 equal frames that the first window of 1024 * 1024 bytes cuts r bytes
  into the last frame, with fewer than 7 bytes on each side of the cut.
\<close>

lemma simplest_aac_parser_cut_short:
  assumes wf: "adts_wf F" and fr: "length F \<le> length fr0" and lbuf: "length buf0 = 1048576"
    and cut: "1048576 = k * length F + r" and r: "r < 7" "length F - r < 7"
  shows "map_option (map frame_bytes) (simplest_aac_parser fr0 buf0 (concat (replicate (Suc k) F)))
         = Some (replicate k F)"
proof -
  define fl where "fl = concat (replicate (Suc k) F)"
  define bs where "bs = concat (replicate k F) @ take r F"
  define if1 where "if1 = \<lparr> contents = fl, fpos = 1048576, eof = False \<rparr>"
  define if2 where "if2 = \<lparr> contents = fl, fpos = 1048576 + (length F - r), eof = True \<rparr>"
  from wf have l: "7 \<le> length F" by (simp add: adts_wf_def)
  have rl: "r < length F" using r l by simp
  have lbs: "length bs = 1048576" using cut rl by (simp add: bs_def length_concat_replicate)
  have f1: "fread (fopen fl) (nat (1048576 - 0)) = (bs, if1)"
    using fread_first_chunk[OF cut rl] by (simp add: fl_def bs_def if1_def)
  have f2: "fread if1 (nat (1048576 - 0)) = (drop r F, if2)"
    using fread_second_chunk[OF cut rl, of 1048576] r by (simp add: fl_def if1_def if2_def)
  have b1: "take (nat 0) buf0 @ bs @ drop (nat 0 + length bs) buf0 = bs"
    using lbs lbuf by simp
  have lt: "length (take r F) < 7" using r by simp
  from aac_frames_whole[OF wf fr bs_def lt]
  obtain fr' sz' where a1: "aac_frames bs 0 (int (length bs)) fr0 0 0 [] =
       Some (- 1, k * length F, int (length (take r F)), fr', sz', int k, frames_upto F fr0 k)"
    by blast
  define st1 where "st1 = \<lparr> aacbuffer = bs, aacframe = fr', offset = 0, frame_sz = sz', cnt_aac = int k \<rparr>"
  have t1: "aac_turn \<lparr> aacbuffer = buf0, aacframe = fr0, offset = 0, frame_sz = 0, cnt_aac = 0 \<rparr>
              (fopen fl) = Some (st1, if1, frames_upto F fr0 k)"
    unfolding st1_def
    using aac_turn_break[OF _ _ f1, of buf0 fr0 0 0, unfolded b1, OF _ _ a1] by simp
  define buf2 where "buf2 = take (nat 0) bs @ drop r F @ drop (nat 0 + length (drop r F)) bs"
  have a2: "aac_frames buf2 0 (int (length (drop r F))) fr' sz' (int k) [] =
              Some (- 1, 0, int (length (drop r F)), fr', sz', int k, [])"
    using r by (subst aac_frames.simps) (simp add: getADTSframe_too_short)
  define st2 where "st2 = \<lparr> aacbuffer = buf2, aacframe = fr', offset = 0, frame_sz = sz', cnt_aac = int k \<rparr>"
  have t2: "aac_turn st1 if1 = Some (st2, if2, [])"
    unfolding st1_def st2_def
    using aac_turn_break[OF _ _ f2, of bs fr' sz' "int k", folded buf2_def, OF _ _ a2] by simp
  have e0: "\<not> feof (fopen fl)" by (simp add: feof_def fopen_def)
  have e1: "\<not> feof if1" by (simp add: feof_def if1_def)
  have e2: "feof if2" by (simp add: feof_def if2_def)
  have "aac_loop \<lparr> aacbuffer = buf0, aacframe = fr0, offset = 0, frame_sz = 0, cnt_aac = 0 \<rparr>
          (fopen fl) [] = aac_loop st1 if1 ([] @ frames_upto F fr0 k)"
    by (subst aac_loop.simps) (simp add: e0 t1 del: upt_Suc)
  also have "\<dots> = aac_loop st2 if2 (([] @ frames_upto F fr0 k) @ [])"
    by (subst aac_loop.simps) (simp add: e1 t2 del: upt_Suc)
  also have "\<dots> = Some (frames_upto F fr0 k)"
    by (subst aac_loop.simps) (simp add: e2 del: upt_Suc)
  finally have res: "aac_loop \<lparr> aacbuffer = buf0, aacframe = fr0, offset = 0, frame_sz = 0,
      cnt_aac = 0 \<rparr> (fopen fl) [] = Some (frames_upto F fr0 k)" .
  show ?thesis
    unfolding simplest_aac_parser_def fl_def[symmetric] res
    by (simp only: option.map frames_upto_bytes[OF fr])
qed

text \<open>
  The same file when the cut leaves at least 7 bytes on each side: the first turn ends
  with 1 and moves the r bytes to the front, the second turn reads the rest of the frame
  behind them and scans a window of only that many bytes.
\<close>

lemma simplest_aac_parser_cut_long:
  assumes wf: "adts_wf F" and fr: "length F \<le> length fr0" and lbuf: "length buf0 = 1048576"
    and cut: "1048576 = k * length F + r" and r: "7 \<le> r" "7 \<le> length F - r"
    and lF: "length F < 1048576"
  shows "map_option (map frame_bytes) (simplest_aac_parser fr0 buf0 (concat (replicate (Suc k) F)))
         = Some (replicate k F)"
proof -
  define fl where "fl = concat (replicate (Suc k) F)"
  define bs where "bs = concat (replicate k F) @ take r F"
  define if1 where "if1 = \<lparr> contents = fl, fpos = 1048576, eof = False \<rparr>"
  define if2 where "if2 = \<lparr> contents = fl, fpos = 1048576 + (length F - r), eof = True \<rparr>"
  have rl: "r < length F" using r by simp
  have ltk: "length (take r F) = r" using rl by simp
  have ldr: "length (drop r F) = length F - r" by simp
  have lbs: "length bs = 1048576" using cut rl by (simp add: bs_def length_concat_replicate)
  have f1: "fread (fopen fl) (nat (1048576 - 0)) = (bs, if1)"
    using fread_first_chunk[OF cut rl] by (simp add: fl_def bs_def if1_def)
  have n2: "length F - r < nat (1048576 - int r)" using lF rl by simp
  have f2: "fread if1 (nat (1048576 - int r)) = (drop r F, if2)"
    using fread_second_chunk[OF cut rl n2] by (simp add: fl_def if1_def if2_def)
  have b1: "take (nat 0) buf0 @ bs @ drop (nat 0 + length bs) buf0 = bs"
    using lbs lbuf by simp
  have p1: "7 \<le> length (take r F)" "length (take r F) < length F" using r rl by simp_all
  have pre1: "take 6 (take r F) = take 6 F" using r by (simp add: min_def)
  from aac_frames_part[OF wf fr bs_def p1 pre1]
  obtain fr' sz' where a1: "aac_frames bs 0 (int (length bs)) fr0 0 0 [] =
       Some (1, k * length F, int (length (take r F)), fr', sz', int k, frames_upto F fr0 k)"
    by blast
  define buf1 where "buf1 = take r F @ drop r bs"
  have d1: "drop (k * length F) bs = take r F" by (simp add: bs_def length_concat_replicate)
  have m1: "memcpy bs (drop (k * length F) bs) (int (length (take r F))) = Some buf1"
    unfolding d1 ltk buf1_def using lbs rl lF by (simp add: memcpy_def)
  define st1 where "st1 = \<lparr> aacbuffer = buf1, aacframe = fr', offset = int r, frame_sz = sz',
    cnt_aac = int k \<rparr>"
  have t1: "aac_turn \<lparr> aacbuffer = buf0, aacframe = fr0, offset = 0, frame_sz = 0, cnt_aac = 0 \<rparr>
              (fopen fl) = Some (st1, if1, frames_upto F fr0 k)"
    unfolding st1_def
    using aac_turn_keep[OF _ _ f1, of buf0 fr0 0 0, unfolded b1, OF _ _ a1 m1] ltk by simp
  define buf2 where "buf2 = take (nat (int r)) buf1 @ drop r F @ drop (nat (int r) + length (drop r F)) buf1"
  have tb: "take 6 buf2 = take 6 F" using r ltk by (simp add: buf2_def buf1_def min_def)
  have lb2: "6 \<le> length buf2" using r ltk by (simp add: buf2_def buf1_def)
  have g2: "getADTSframe (Some buf2) (int (length (drop r F))) (Some fr') (Some sz')
              = Some (1, Some fr', Some sz')"
    by (rule getADTSframe_need_more[OF wf _ _ lb2 tb]) (use r rl in simp_all)
  have a2: "aac_frames buf2 0 (int (length (drop r F))) fr' sz' (int k) [] =
              Some (1, 0, int (length (drop r F)), fr', sz', int k, [])"
    using g2 by (subst aac_frames.simps) simp
  have lb2': "length F - r \<le> length buf2" by (simp add: buf2_def)
  have m2: "memcpy buf2 (drop 0 buf2) (int (length (drop r F))) = Some buf2"
    using lb2' by (simp add: memcpy_def)
  define st2 where "st2 = \<lparr> aacbuffer = buf2, aacframe = fr', offset = int (length (drop r F)),
    frame_sz = sz', cnt_aac = int k \<rparr>"
  have o1: "0 \<le> int r" "int r \<le> 1048576" using cut by simp_all
  have t2: "aac_turn st1 if1 = Some (st2, if2, [])"
    unfolding st1_def st2_def
    by (rule aac_turn_keep[OF o1 f2, of buf1 fr' sz' "int k", folded buf2_def, OF a2 m2])
  have e0: "\<not> feof (fopen fl)" by (simp add: feof_def fopen_def)
  have e1: "\<not> feof if1" by (simp add: feof_def if1_def)
  have e2: "feof if2" by (simp add: feof_def if2_def)
  have "aac_loop \<lparr> aacbuffer = buf0, aacframe = fr0, offset = 0, frame_sz = 0, cnt_aac = 0 \<rparr>
          (fopen fl) [] = aac_loop st1 if1 ([] @ frames_upto F fr0 k)"
    by (subst aac_loop.simps) (simp add: e0 t1 del: upt_Suc)
  also have "\<dots> = aac_loop st2 if2 (([] @ frames_upto F fr0 k) @ [])"
    by (subst aac_loop.simps) (simp add: e1 t2 del: upt_Suc)
  also have "\<dots> = Some (frames_upto F fr0 k)"
    by (subst aac_loop.simps) (simp add: e2 del: upt_Suc)
  finally have res: "aac_loop \<lparr> aacbuffer = buf0, aacframe = fr0, offset = 0, frame_sz = 0,
      cnt_aac = 0 \<rparr> (fopen fl) [] = Some (frames_upto F fr0 k)" .
  show ?thesis
    unfolding simplest_aac_parser_def fl_def[symmetric] res
    by (simp only: option.map frames_upto_bytes[OF fr])
qed

lemma adts_frames_of_buffer_bytes:
  assumes wf: "adts_wf F" and fr: "length F \<le> length fr0"
  shows "map_option (map frame_bytes) (adts_frames_of_buffer fr0 (concat (replicate k F)))
         = Some (replicate k F)"
  unfolding adts_frames_of_buffer_frames[OF wf fr]
  by (simp only: option.map frames_upto_bytes[OF fr])

text \<open>
  C1. The claim fails on the code. The file is 149797 frames of 7 bytes. The first window of
  1024 * 1024 bytes ends 4 bytes into the last frame; on these 4 bytes \<^verbatim>\<open>getADTSframe\<close>
  returns \<open>-1\<close>, and the parser leaves the inner loop without moving them to the front of
  \<^verbatim>\<open>aacbuffer\<close> and with \<^verbatim>\<open>offset\<close> unchanged. The next \<^verbatim>\<open>fread\<close> stores the last 3 bytes of
  the file over them, so the last frame is never emitted: 149796 frames come out, where the
  stream holds 149797.
\<close>

theorem simplest_aac_parser_drops_leftover:
  "getADTSframe (Some [0xFF, 0xF1, 0x50, 0x80]) 4 (Some (replicate 5120 0)) (Some 7)
     = Some (- 1, Some (replicate 5120 0), Some 7) \<and>
   map_option (map frame_bytes)
     (simplest_aac_parser (replicate 5120 0) (replicate 1048576 0)
        (concat (replicate 149797 [0xFF, 0xF1, 0x50, 0x80, 0x00, 0xE0, 0x00])))
     = Some (replicate 149796 [0xFF, 0xF1, 0x50, 0x80, 0x00, 0xE0, 0x00]) \<and>
   map_option (map frame_bytes)
     (adts_frames_of_buffer (replicate 5120 0)
        (concat (replicate 149797 [0xFF, 0xF1, 0x50, 0x80, 0x00, 0xE0, 0x00])))
     = Some (replicate 149797 [0xFF, 0xF1, 0x50, 0x80, 0x00, 0xE0, 0x00])"
proof -
  let ?F = "[0xFF, 0xF1, 0x50, 0x80, 0x00, 0xE0, 0x00] :: byte list"
  have wf: "adts_wf ?F" by (simp add: adts_wf_def adts_size_def)
  have fr: "length ?F \<le> length (replicate 5120 (0::byte))" by simp
  have lb: "length (replicate 1048576 (0::byte)) = 1048576" by simp
  have cut: "1048576 = 149796 * length ?F + 4" by simp
  have r: "(4::nat) < 7" "length ?F - 4 < 7" by simp_all
  have s: "Suc 149796 = 149797" by simp
  have g: "getADTSframe (Some [0xFF, 0xF1, 0x50, 0x80]) 4 (Some (replicate 5120 0)) (Some 7)
     = Some (- 1, Some (replicate 5120 0), Some 7)"
    by (rule getADTSframe_too_short) simp
  note p = simplest_aac_parser_cut_short[OF wf fr lb cut r, unfolded s]
  note q = adts_frames_of_buffer_bytes[OF wf fr, of 149797]
  show ?thesis by (intro conjI; fact)
qed

text \<open>
  C5. The claim fails on the code. The file is 205 frames of 5120 bytes. The first window
  ends 4096 bytes into the last frame; \<^verbatim>\<open>getADTSframe\<close> returns 1, the 4096 bytes are moved
  to the front and \<^verbatim>\<open>offset\<close> becomes 4096. The next \<^verbatim>\<open>fread\<close> stores the other 1024 bytes
  behind them, but \<^verbatim>\<open>data_size\<close> is only what it returned, so the scan sees 1024 bytes of a
  frame of 5120 and the loop ends at the end of the file. Read through the windows the
  stream gives 204 frames; held in one buffer it gives 205.
\<close>

theorem simplest_aac_parser_chunked_differs:
  "map_option (map frame_bytes)
     (simplest_aac_parser (replicate 5120 0) (replicate 1048576 0)
        (concat (replicate 205 ([0xFF, 0xF1, 0x50, 0x82, 0x80, 0x1F, 0xFC] @ replicate 5113 0))))
     = Some (replicate 204 ([0xFF, 0xF1, 0x50, 0x82, 0x80, 0x1F, 0xFC] @ replicate 5113 0)) \<and>
   map_option (map frame_bytes)
     (adts_frames_of_buffer (replicate 5120 0)
        (concat (replicate 205 ([0xFF, 0xF1, 0x50, 0x82, 0x80, 0x1F, 0xFC] @ replicate 5113 0))))
     = Some (replicate 205 ([0xFF, 0xF1, 0x50, 0x82, 0x80, 0x1F, 0xFC] @ replicate 5113 0))"
proof -
  let ?F = "[0xFF, 0xF1, 0x50, 0x82, 0x80, 0x1F, 0xFC] @ replicate 5113 (0::byte)"
  have wf: "adts_wf ?F" by (simp add: adts_wf_def adts_size_def)
  have fr: "length ?F \<le> length (replicate 5120 (0::byte))" by simp
  have lb: "length (replicate 1048576 (0::byte)) = 1048576" by simp
  have cut: "1048576 = 204 * length ?F + 4096" by simp
  have r: "(7::nat) \<le> 4096" "7 \<le> length ?F - 4096" by simp_all
  have lF: "length ?F < 1048576" by simp
  have s: "Suc 204 = 205" by simp
  note p = simplest_aac_parser_cut_long[OF wf fr lb cut r lF, unfolded s]
  note q = adts_frames_of_buffer_bytes[OF wf fr, of 205]
  show ?thesis by (intro conjI; fact)
qed

end
